theory Spec2Isabelle
  imports Complex_Main
begin

section \<open>Two-state Markov chain simulation (markov\_chains1.ipynb)\<close>

text \<open>
  The notebook defines three generators of a 0/1 state sequence: \<open>markov1\<close>,
  \<open>markov\<close> and \<open>markov_cython\<close>. Each allocates an uninitialised array with
  \<open>np.empty(n)\<close>, stores the initial state 1 at index 0, draws \<open>n\<close> uniform numbers
  and walks the array once.

  Modelling choices:
  \<^item> Floats are modelled as reals. The generators only compare draws with the
    parameters and store the outcome (1.0 or 0.0), so no rounding is involved.
  \<^item> The ambient random generator is an explicit argument \<open>rng\<close>: \<open>rng i\<close> is the
    \<open>i\<close>-th number handed out by \<open>np.random.uniform(0, 1, size = n)\<close>.
  \<^item> The contents of the array returned by \<open>np.empty\<close> are arbitrary; they are an
    explicit argument \<open>mem\<close> (\<open>mem i\<close> is what cell \<open>i\<close> holds before it is written).
  \<^item> Exceptions of the Python run are values of type \<open>error\<close>. Memory is taken
    to be unbounded: an allocation fails only for a negative size.
\<close>

datatype error = ValueError | IndexError | OverflowError | LinAlgError

text \<open>\<open>np.empty(n)\<close>: a negative size raises ValueError.\<close>

definition np_empty :: "int \<Rightarrow> (nat \<Rightarrow> 'a) \<Rightarrow> error + 'a list" where
  "np_empty n mem = (if n < 0 then Inl ValueError else Inr (map mem [0..<nat n]))"

text \<open>\<open>np.random.uniform(0, 1, size = n)\<close>: the first \<open>n\<close> draws of the generator.\<close>

definition np_random_uniform :: "(nat \<Rightarrow> real) \<Rightarrow> int \<Rightarrow> error + real list" where
  "np_random_uniform rng n = (if n < 0 then Inl ValueError else Inr (map rng [0..<nat n]))"

text \<open>\<open>a[0] = v\<close> on a one-dimensional array: index 0 is out of bounds for size 0.\<close>

definition store0 :: "'a list \<Rightarrow> 'a \<Rightarrow> error + 'a list" where
  "store0 a v = (if length a = 0 then Inl IndexError else Inr (a[0 := v]))"

subsection \<open>markov1\<close>

text \<open>
  The main loop of \<open>markov1\<close>, with \<open>states = [1, 0]\<close>. Inside the loop
  \<open>i < n - 1\<close>, so both \<open>i\<close> and \<open>i + 1\<close> are valid indices of the arrays of size \<open>n\<close>.
\<close>

function markov1_loop ::
  "int \<Rightarrow> real \<Rightarrow> real \<Rightarrow> real list \<Rightarrow> real list \<Rightarrow> nat \<Rightarrow> real list \<Rightarrow> real list" where
  "markov1_loop n h_h l_l states x i seq_states =
     (if int i < n - 1 then
        markov1_loop n h_h l_l states x (i + 1)
          (if seq_states ! i = 1 then
             (if x ! i \<le> h_h then seq_states[i + 1 := states ! 0]
              else seq_states[i + 1 := states ! 1])
           else
             (if x ! i \<le> l_l then seq_states[i + 1 := states ! 1]
              else seq_states[i + 1 := states ! 0]))
      else seq_states)"
  by pat_completeness auto
termination
  by (relation "measure (\<lambda>(n, h_h, l_l, states, x, i, seq_states). nat (n - 1 - int i))") auto

declare markov1_loop.simps [simp del]

definition markov1 ::
  "int \<Rightarrow> real \<Rightarrow> real \<Rightarrow> (nat \<Rightarrow> real) \<Rightarrow> (nat \<Rightarrow> real) \<Rightarrow> error + real list" where
  "markov1 n h_h l_l mem rng =
     (let states = [1, 0];
          init_state = states ! 0
      in case np_empty n mem of
           Inl e \<Rightarrow> Inl e
         | Inr seq_states0 \<Rightarrow>
             (case store0 seq_states0 init_state of
                Inl e \<Rightarrow> Inl e
              | Inr seq_states \<Rightarrow>
                  (case np_random_uniform rng n of
                     Inl e \<Rightarrow> Inl e
                   | Inr x \<Rightarrow> Inr (markov1_loop n h_h l_l states x 0 seq_states))))"

subsection \<open>markov\<close>

text \<open>
  The main loop of \<open>markov\<close>: the comparison itself is stored, and a boolean stored
  into a float array becomes 1.0 or 0.0.
\<close>

function markov_loop ::
  "int \<Rightarrow> real \<Rightarrow> real \<Rightarrow> real list \<Rightarrow> nat \<Rightarrow> real list \<Rightarrow> real list" where
  "markov_loop n h_h l_l x i seq_states =
     (if int i < n - 1 then
        markov_loop n h_h l_l x (i + 1)
          (if seq_states ! i = 1 then seq_states[i + 1 := of_bool (x ! i < h_h)]
           else seq_states[i + 1 := of_bool (x ! i > l_l)])
      else seq_states)"
  by pat_completeness auto
termination
  by (relation "measure (\<lambda>(n, h_h, l_l, x, i, seq_states). nat (n - 1 - int i))") auto

declare markov_loop.simps [simp del]

definition markov ::
  "int \<Rightarrow> real \<Rightarrow> real \<Rightarrow> (nat \<Rightarrow> real) \<Rightarrow> (nat \<Rightarrow> real) \<Rightarrow> error + real list" where
  "markov n h_h l_l mem rng =
     (let init_state = 1
      in case np_empty n mem of
           Inl e \<Rightarrow> Inl e
         | Inr seq_states0 \<Rightarrow>
             (case store0 seq_states0 init_state of
                Inl e \<Rightarrow> Inl e
              | Inr seq_states \<Rightarrow>
                  (case np_random_uniform rng n of
                     Inl e \<Rightarrow> Inl e
                   | Inr x \<Rightarrow> Inr (markov_loop n h_h l_l x 0 seq_states))))"

subsection \<open>markov\_cython\<close>

text \<open>
  The Cython version declares \<open>int n\<close>: a Python integer outside the range of a C
  \<open>int\<close> (32 bits) raises OverflowError at the call. The state array holds integers.
  The counter \<open>i\<close> is a C \<open>int\<close> too; in the loop \<open>i < n - 1\<close> with \<open>n\<close> at most
  \<open>2^31 - 1\<close>, so \<open>i + 1\<close> never wraps.
\<close>

function markov_cython_loop ::
  "int \<Rightarrow> real \<Rightarrow> real \<Rightarrow> real list \<Rightarrow> nat \<Rightarrow> int list \<Rightarrow> int list" where
  "markov_cython_loop n h_h l_l x i states =
     (if int i < n - 1 then
        markov_cython_loop n h_h l_l x (i + 1)
          (if states ! i = 1 then states[i + 1 := of_bool (x ! i < h_h)]
           else states[i + 1 := of_bool (x ! i > l_l)])
      else states)"
  by pat_completeness auto
termination
  by (relation "measure (\<lambda>(n, h_h, l_l, x, i, states). nat (n - 1 - int i))") auto

declare markov_cython_loop.simps [simp del]

definition markov_cython ::
  "int \<Rightarrow> real \<Rightarrow> real \<Rightarrow> (nat \<Rightarrow> int) \<Rightarrow> (nat \<Rightarrow> real) \<Rightarrow> error + int list" where
  "markov_cython n h_h l_l mem rng =
     (if n < - (2 ^ 31) \<or> 2 ^ 31 \<le> n then Inl OverflowError
      else case np_empty n mem of
           Inl e \<Rightarrow> Inl e
         | Inr states_np_array \<Rightarrow>
             (case np_random_uniform rng n of
                Inl e \<Rightarrow> Inl e
              | Inr x \<Rightarrow>
                  (case store0 states_np_array 1 of
                     Inl e \<Rightarrow> Inl e
                   | Inr states \<Rightarrow> Inr (markov_cython_loop n h_h l_l x 0 states))))"

subsection \<open>Step rules\<close>

text \<open>The step the loop of \<open>markov\<close> takes from state \<open>s\<close> with draw \<open>r\<close>.\<close>

definition markov_next :: "real \<Rightarrow> real \<Rightarrow> real \<Rightarrow> real \<Rightarrow> real" where
  "markov_next h_h l_l s r = (if s = 1 then of_bool (r < h_h) else of_bool (r > l_l))"

text \<open>The step the loop of \<open>markov1\<close> takes from state \<open>s\<close> with draw \<open>r\<close>.\<close>

definition markov1_next :: "real \<Rightarrow> real \<Rightarrow> real \<Rightarrow> real \<Rightarrow> real" where
  "markov1_next h_h l_l s r =
     (if s = 1 then (if r \<le> h_h then 1 else 0) else (if r \<le> l_l then 0 else 1))"

text \<open>
  The step rule as the specification words it: from state 1 the next state is 1
  when \<open>r < h_h\<close>, else 0; from state 0 the next state is 0 when \<open>r > l_l\<close>, else 1.
\<close>

definition spec_next :: "real \<Rightarrow> real \<Rightarrow> real \<Rightarrow> real \<Rightarrow> real" where
  "spec_next h_h l_l s r =
     (if s = 1 then (if r < h_h then 1 else 0) else (if r > l_l then 0 else 1))"

text \<open>
  The common shape of the three loops, used in the proofs only: cell \<open>i + 1\<close> receives
  \<open>f\<close> of cell \<open>i\<close> and draw \<open>i\<close>.
\<close>

function iter_loop :: "('a \<Rightarrow> real \<Rightarrow> 'a) \<Rightarrow> int \<Rightarrow> real list \<Rightarrow> nat \<Rightarrow> 'a list \<Rightarrow> 'a list" where
  "iter_loop f n x i s =
     (if int i < n - 1 then iter_loop f n x (i + 1) (s[i + 1 := f (s ! i) (x ! i)]) else s)"
  by pat_completeness auto
termination
  by (relation "measure (\<lambda>(f, n, x, i, s). nat (n - 1 - int i))") auto

declare iter_loop.simps [simp del]

text \<open>The step the Cython loop takes from state \<open>s\<close> with draw \<open>r\<close>.\<close>

definition markov_cython_next :: "real \<Rightarrow> real \<Rightarrow> int \<Rightarrow> real \<Rightarrow> int" where
  "markov_cython_next h_h l_l s r = (if s = 1 then of_bool (r < h_h) else of_bool (r > l_l))"

text \<open>Sample inputs for the concrete runs below.\<close>

definition zero_mem :: "nat \<Rightarrow> real" where
  "zero_mem i = 0"

definition seven_mem :: "nat \<Rightarrow> real" where
  "seven_mem i = 7"

definition int_mem :: "nat \<Rightarrow> int" where
  "int_mem i = 5"

definition high_draws :: "nat \<Rightarrow> real" where
  "high_draws i = 7 / 10"

definition mixed_draws :: "nat \<Rightarrow> real" where
  "mixed_draws i = (if i = 0 then 9 / 10 else if i = 1 then 1 / 10 else 3 / 4)"

definition mixed_draws_alt :: "nat \<Rightarrow> real" where
  "mixed_draws_alt i = (if i = 3 then 0 else mixed_draws i)"

text \<open>
  A draw stream whose first draw is 1/2 and whose later draws all are \<open>r\<close>. With
  \<open>h_h = 0\<close> the first draw moves a run from state 1 to state 0, so that the draw \<open>r\<close>
  at index 1 is consumed in state 0.
\<close>

definition low_draws :: "real \<Rightarrow> nat \<Rightarrow> real" where
  "low_draws r i = (if i = 0 then 1 / 2 else r)"

text \<open>
  The probability of an event of one uniform draw on \<open>[0,1)\<close>: the limit, as \<open>N\<close> grows,
  of the fraction of the \<open>N\<close> equally spaced points \<open>0, 1/N, \<dots>, (N-1)/N\<close> at which
  the event holds. For an interval this is its length.
\<close>

definition grid_fraction :: "(real \<Rightarrow> bool) \<Rightarrow> nat \<Rightarrow> real" where
  "grid_fraction E N = real (card {j. j < N \<and> E (real j / real N)}) / real N"

definition uniform_prob :: "(real \<Rightarrow> bool) \<Rightarrow> real \<Rightarrow> bool" where
  "uniform_prob E p \<longleftrightarrow> (\<lambda>N. grid_fraction E N) \<longlonglongrightarrow> p"

section \<open>Gram-Schmidt orthogonalisation and projections (linear algebra notebook)\<close>

text \<open>
  The notebook's \<open>gram_schmidt(X)\<close> and the two projections \<open>Py1\<close> and \<open>Py2\<close>.

  Modelling choices:
  \<^item> A two-dimensional array is the list of its rows, all of one length; the model
    covers arrays with at least one row, as built from nested lists in the notebook
    (an array with no row does not record its number of columns here).
  \<^item> Arithmetic is exact real arithmetic. A float that is not finite (NaN or an
    infinity) is the value \<open>NonFinite\<close>: numpy's division by zero returns such a value
    (with a warning) instead of raising. Sums and products with a non-finite operand
    are non-finite.
  \<^item> \<open>np.linalg.inv\<close> is library code; it is the argument \<open>linalg_inv\<close>, which returns
    a matrix or raises LinAlgError.
  \<^item> The contents of \<open>np.empty((n, k))\<close> are the argument \<open>mem\<close>.
  \<^item> Inside \<open>gram_schmidt\<close> the shapes of all products conform for every rectangular
    \<open>X\<close> (the inverse having the shape of its argument), so \<open>@\<close> is modelled on
    conforming shapes; the product with the vector \<open>y\<close> in \<open>Py1\<close> and \<open>Py2\<close> raises
    ValueError when the length of \<open>y\<close> is not the number of rows.
\<close>

text \<open>A float: a finite value, or a value that is not finite (NaN, \<open>inf\<close>, \<open>-inf\<close>).\<close>

datatype npfloat = Fin real | NonFinite

text \<open>
  Addition and multiplication of floats, exact on finite values; a non-finite operand
  makes the result non-finite. \<open>0\<close> is the float zero, so that \<open>sum_list\<close> and the
  products below apply to both reals and floats.
\<close>

instantiation npfloat :: "{comm_monoid_add, times}"
begin

definition zero_npfloat :: npfloat where
  "zero_npfloat = Fin 0"

definition plus_npfloat :: "npfloat \<Rightarrow> npfloat \<Rightarrow> npfloat" where
  "plus_npfloat a b = (case a of Fin x \<Rightarrow> (case b of Fin y \<Rightarrow> Fin (x + y) | NonFinite \<Rightarrow> NonFinite)
                       | NonFinite \<Rightarrow> NonFinite)"

definition times_npfloat :: "npfloat \<Rightarrow> npfloat \<Rightarrow> npfloat" where
  "times_npfloat a b = (case a of Fin x \<Rightarrow> (case b of Fin y \<Rightarrow> Fin (x * y) | NonFinite \<Rightarrow> NonFinite)
                       | NonFinite \<Rightarrow> NonFinite)"

instance
proof
  fix a b c :: npfloat
  show "a + b + c = a + (b + c)"
    by (simp add: plus_npfloat_def split: npfloat.splits)
  show "a + b = b + a"
    by (simp add: plus_npfloat_def split: npfloat.splits)
  show "0 + a = a"
    by (simp add: plus_npfloat_def zero_npfloat_def split: npfloat.splits)
qed

end

text \<open>\<open>X.shape\<close> of an array given by its rows.\<close>

definition ncols :: "'a list list \<Rightarrow> nat" where
  "ncols A = (case A of [] \<Rightarrow> 0 | r # _ \<Rightarrow> length r)"

definition shape :: "'a list list \<Rightarrow> nat \<times> nat" where
  "shape A = (length A, ncols A)"

text \<open>The slices \<open>A[:, j]\<close> and \<open>A[:, 0:i]\<close>, and the transpose \<open>A.T\<close>.\<close>

definition col :: "'a list list \<Rightarrow> nat \<Rightarrow> 'a list" where
  "col A j = map (\<lambda>r. r ! j) A"

definition cols_upto :: "'a list list \<Rightarrow> nat \<Rightarrow> 'a list list" where
  "cols_upto A i = map (take i) A"

definition transpose_np :: "'a list list \<Rightarrow> 'a list list" where
  "transpose_np A = map (col A) [0..<ncols A]"

text \<open>
  The operator \<open>@\<close>: a matrix times a vector (\<open>matvec\<close>) and a matrix times a matrix
  (\<open>matmul\<close>), both built from inner products of rows with columns.
\<close>

definition dot :: "'a::{monoid_add,times} list \<Rightarrow> 'a list \<Rightarrow> 'a" where
  "dot a b = sum_list (map2 (*) a b)"

definition matvec :: "'a::{monoid_add,times} list list \<Rightarrow> 'a list \<Rightarrow> 'a list" where
  "matvec A x = map (\<lambda>r. dot r x) A"

definition matmul :: "'a::{monoid_add,times} list list \<Rightarrow> 'a list list \<Rightarrow> 'a list list" where
  "matmul A B = map (\<lambda>a. map (\<lambda>j. dot a (col B j)) [0..<ncols B]) A"

text \<open>\<open>np.eye(n)\<close> and the elementwise difference of two matrices of one shape.\<close>

definition eye :: "nat \<Rightarrow> real list list" where
  "eye n = map (\<lambda>i. map (\<lambda>j. if i = j then 1 else 0) [0..<n]) [0..<n]"

definition mat_sub :: "real list list \<Rightarrow> real list list \<Rightarrow> real list list" where
  "mat_sub A B = map2 (map2 (-)) A B"

text \<open>\<open>np.empty((n, k))\<close>: an \<open>n\<close>-by-\<open>k\<close> array holding whatever the memory holds.\<close>

definition np_empty2 :: "nat \<Rightarrow> nat \<Rightarrow> (nat \<Rightarrow> nat \<Rightarrow> 'a) \<Rightarrow> 'a list list" where
  "np_empty2 n k mem = map (\<lambda>i. map (mem i) [0..<k]) [0..<n]"

text \<open>
  \<open>np.sqrt(np.sum(v**2))\<close>, and \<open>v / s\<close> for a vector and a scalar: dividing by zero
  gives NaN or an infinity in every entry and does not raise.
\<close>

definition norm2 :: "real list \<Rightarrow> real" where
  "norm2 v = sqrt (sum_list (map (\<lambda>a. a ^ 2) v))"

definition np_divide :: "real list \<Rightarrow> real \<Rightarrow> npfloat list" where
  "np_divide v s = map (\<lambda>a. if s = 0 then NonFinite else Fin (a / s)) v"

text \<open>The assignment \<open>U[:, j] = v\<close>, returning the updated array.\<close>

definition set_col :: "'a list list \<Rightarrow> nat \<Rightarrow> 'a list \<Rightarrow> 'a list list" where
  "set_col U j v = map2 (\<lambda>r a. r[j := a]) U v"

text \<open>
  The loop \<open>for i in range(1, k)\<close> of \<open>gram_schmidt\<close>, from index \<open>i\<close> on. An exception
  of the inversion ends the run.
\<close>

function gram_schmidt_loop ::
  "(real list list \<Rightarrow> error + real list list) \<Rightarrow> real list list \<Rightarrow> nat \<Rightarrow> nat \<Rightarrow> nat \<Rightarrow>
     npfloat list list \<Rightarrow> error + npfloat list list" where
  "gram_schmidt_loop linalg_inv X n k i U =
     (if i < k then
        (let x = col X i;
             Z = cols_upto X i
         in case linalg_inv (matmul (transpose_np Z) Z) of
              Inl e \<Rightarrow> Inl e
            | Inr G \<Rightarrow>
                (let M = mat_sub (eye n) (matmul (matmul Z G) (transpose_np Z));
                     u = matvec M x
                 in gram_schmidt_loop linalg_inv X n k (i + 1) (set_col U i (np_divide u (norm2 u)))))
      else Inr U)"
  by pat_completeness auto
termination
  by (relation "measure (\<lambda>(linalg_inv, X, n, k, i, U). k - i)") auto

declare gram_schmidt_loop.simps [simp del]

text \<open>
  \<open>gram_schmidt(X)\<close>. With no column, \<open>X[:, 0]\<close> raises IndexError. A zero first column
  is divided by its zero norm like any other.
\<close>

definition gram_schmidt ::
  "(real list list \<Rightarrow> error + real list list) \<Rightarrow> (nat \<Rightarrow> nat \<Rightarrow> npfloat) \<Rightarrow> real list list \<Rightarrow>
     error + npfloat list list" where
  "gram_schmidt linalg_inv mem X =
     (let (n, k) = shape X;
          U = np_empty2 n k mem
      in if k = 0 then Inl IndexError
         else
           (let v1 = col X 0
            in gram_schmidt_loop linalg_inv X n k 1 (set_col U 0 (np_divide v1 (norm2 v1)))))"

text \<open>
  The notebook cells \<open>Py1 = X @ np.linalg.inv(X.T @ X) @ X.T @ y\<close> and
  \<open>U = gram_schmidt(X); Py2 = U @ U.T @ y\<close>; \<open>@\<close> associates to the left.
\<close>

definition Py1 ::
  "(real list list \<Rightarrow> error + real list list) \<Rightarrow> real list list \<Rightarrow> real list \<Rightarrow> error + real list" where
  "Py1 linalg_inv X y =
     (case linalg_inv (matmul (transpose_np X) X) of
        Inl e \<Rightarrow> Inl e
      | Inr G \<Rightarrow>
          (let P = matmul (matmul X G) (transpose_np X)
           in if length y \<noteq> length X then Inl ValueError else Inr (matvec P y)))"

definition Py2 ::
  "(real list list \<Rightarrow> error + real list list) \<Rightarrow> (nat \<Rightarrow> nat \<Rightarrow> npfloat) \<Rightarrow> real list list \<Rightarrow>
     real list \<Rightarrow> error + npfloat list" where
  "Py2 linalg_inv mem X y =
     (case gram_schmidt linalg_inv mem X of
        Inl e \<Rightarrow> Inl e
      | Inr U \<Rightarrow>
          (let P = matmul U (transpose_np U)
           in if length y \<noteq> length U then Inl ValueError else Inr (matvec P (map Fin y))))"

text \<open>
  Sample inputs for the concrete runs: the inverse of a 1-by-1 or 2-by-2 matrix in
  closed form (LinAlgError when it is singular), and an uninitialised array full of
  NaN.
\<close>

definition inv_small :: "real list list \<Rightarrow> error + real list list" where
  "inv_small A =
     (case A of
        [[a]] \<Rightarrow> if a = 0 then Inl LinAlgError else Inr [[1 / a]]
      | [[a, b], [c, d]] \<Rightarrow>
          if a * d - b * c = 0 then Inl LinAlgError
          else Inr [[d / (a * d - b * c), - b / (a * d - b * c)],
                    [- c / (a * d - b * c), a / (a * d - b * c)]]
      | _ \<Rightarrow> Inl LinAlgError)"

definition nan_mem :: "nat \<Rightarrow> nat \<Rightarrow> npfloat" where
  "nan_mem i j = NonFinite"


text \<open>Shapes and vector operations used in the statements and proofs.\<close>

definition is_mat :: "nat \<Rightarrow> nat \<Rightarrow> 'a list list \<Rightarrow> bool" where
  "is_mat n k A \<longleftrightarrow> length A = n \<and> (\<forall>r \<in> set A. length r = k)"

definition vsub :: "real list \<Rightarrow> real list \<Rightarrow> real list" where
  "vsub a b = map2 (-) a b"

definition vadd :: "real list \<Rightarrow> real list \<Rightarrow> real list" where
  "vadd a b = map2 (+) a b"

definition smult :: "real \<Rightarrow> real list \<Rightarrow> real list" where
  "smult s a = map ((*) s) a"

definition zeros :: "nat \<Rightarrow> real list" where
  "zeros n = replicate n 0"


text \<open>
  Linear independence of the \<open>k\<close> columns of \<open>X\<close>: only the zero combination of the
  columns is the zero vector.
\<close>

definition lin_indep_cols :: "nat \<Rightarrow> real list list \<Rightarrow> bool" where
  "lin_indep_cols k X \<longleftrightarrow>
     (\<forall>c. length c = k \<and> matvec X c = zeros (length X) \<longrightarrow> c = zeros k)"

text \<open>A square matrix is nonsingular when its null space is trivial.\<close>

definition nonsingular :: "real list list \<Rightarrow> bool" where
  "nonsingular A \<longleftrightarrow>
     (\<forall>c. length c = length A \<and> matvec A c = zeros (length A) \<longrightarrow> c = zeros (length A))"

text \<open>\<open>B\<close> is an inverse of the square matrix \<open>A\<close>.\<close>

definition is_inverse :: "real list list \<Rightarrow> real list list \<Rightarrow> bool" where
  "is_inverse A B \<longleftrightarrow>
     is_mat (length A) (length A) B \<and>
     matmul A B = eye (length A) \<and> matmul B A = eye (length A)"

text \<open>
  The contract of \<open>np.linalg.inv\<close> at the matrix \<open>A\<close>: if \<open>A\<close> has an inverse, the call
  returns an inverse of \<open>A\<close>.
\<close>

definition inverts :: "(real list list \<Rightarrow> error + real list list) \<Rightarrow> real list list \<Rightarrow> bool" where
  "inverts linalg_inv A \<longleftrightarrow>
     ((\<exists>B. is_inverse A B) \<longrightarrow> (\<exists>B. linalg_inv A = Inr B \<and> is_inverse A B))"

text \<open>The Gram matrix \<open>Z.T @ Z\<close> of the first \<open>i\<close> columns of \<open>X\<close>.\<close>

definition gram_upto :: "real list list \<Rightarrow> nat \<Rightarrow> real list list" where
  "gram_upto X i = matmul (transpose_np (cols_upto X i)) (cols_upto X i)"


text \<open>
  The vector \<open>u\<close> that the loop of \<open>gram_schmidt\<close> computes for column \<open>i\<close> (for column 0,
  the column itself), and its normalisation over the reals.
\<close>

definition gs_resid ::
  "(real list list \<Rightarrow> error + real list list) \<Rightarrow> real list list \<Rightarrow> nat \<Rightarrow> real list" where
  "gs_resid linalg_inv X i =
     (if i = 0 then col X 0
      else (case linalg_inv (gram_upto X i) of
              Inl e \<Rightarrow> []
            | Inr G \<Rightarrow>
                matvec (mat_sub (eye (length X))
                  (matmul (matmul (cols_upto X i) G) (transpose_np (cols_upto X i)))) (col X i)))"

definition gs_unit ::
  "(real list list \<Rightarrow> error + real list list) \<Rightarrow> real list list \<Rightarrow> nat \<Rightarrow> real list" where
  "gs_unit linalg_inv X i =
     map (\<lambda>a. a / norm2 (gs_resid linalg_inv X i)) (gs_resid linalg_inv X i)"

definition gs_basis ::
  "(real list list \<Rightarrow> error + real list list) \<Rightarrow> real list list \<Rightarrow> real list list" where
  "gs_basis linalg_inv X =
     map (\<lambda>a. map (\<lambda>j. gs_unit linalg_inv X j ! a) [0..<ncols X]) [0..<length X]"


text \<open>Membership in the column space: \<open>v\<close> is a combination of the \<open>k\<close> columns of \<open>A\<close>.\<close>

definition in_span :: "nat \<Rightarrow> real list list \<Rightarrow> real list \<Rightarrow> bool" where
  "in_span k A v \<longleftrightarrow> (\<exists>b. length b = k \<and> v = matvec A b)"


text \<open>
  The matrix \<open>X\<close> and the vector \<open>y\<close> of the notebook's projection cells, and a matrix
  whose second column duplicates the first.
\<close>

definition X_example :: "real list list" where
  "X_example = [[1, 0], [0, - 6], [2, 2]]"

definition y_example :: "real list" where
  "y_example = [1, 3, - 3]"




section \<open>Properties of the generators\<close>

subsection \<open>The common loop\<close>

lemma iter_loop_length [simp]: "length (iter_loop f n x i s) = length s"
proof (induction f n x i s rule: iter_loop.induct)
  case (1 f n x i s)
  then show ?case by (subst iter_loop.simps) simp
qed

lemma iter_loop_prefix: "j \<le> i \<Longrightarrow> iter_loop f n x i s ! j = s ! j"
proof (induction f n x i s rule: iter_loop.induct)
  case (1 f n x i s)
  show ?case
  proof (cases "int i < n - 1")
    case True
    then have "iter_loop f n x i s ! j = (s[i + 1 := f (s ! i) (x ! i)]) ! j"
      using "1.IH" "1.prems" by (subst iter_loop.simps) simp
    then show ?thesis using "1.prems" by simp
  next
    case False
    then show ?thesis by (subst iter_loop.simps) simp
  qed
qed

lemma iter_loop_step:
  "i \<le> j \<Longrightarrow> int j < n - 1 \<Longrightarrow> j + 1 < length s \<Longrightarrow>
   iter_loop f n x i s ! (j + 1) = f (iter_loop f n x i s ! j) (x ! j)"
proof (induction f n x i s rule: iter_loop.induct)
  case (1 f n x i s)
  let ?s = "s[i + 1 := f (s ! i) (x ! i)]"
  from "1.prems" have lt: "int i < n - 1" by simp
  have unf: "iter_loop f n x i s = iter_loop f n x (i + 1) ?s"
    using lt by (subst iter_loop.simps) simp
  show ?case
  proof (cases "j = i")
    case True
    have a: "iter_loop f n x (i + 1) ?s ! (i + 1) = ?s ! (i + 1)"
      by (rule iter_loop_prefix) simp
    have b: "iter_loop f n x (i + 1) ?s ! i = ?s ! i"
      by (rule iter_loop_prefix) simp
    show ?thesis using a b True "1.prems" unf by simp
  next
    case False
    with "1.prems" have "i + 1 \<le> j" by simp
    then show ?thesis
      using "1.IH" [OF lt] "1.prems" unfolding unf by simp
  qed
qed

lemma markov_loop_iter:
  "markov_loop n h_h l_l x i s = iter_loop (markov_next h_h l_l) n x i s"
proof (induction n h_h l_l x i s rule: markov_loop.induct)
  case (1 n h_h l_l x i s)
  show ?case
  proof (cases "int i < n - 1")
    case True
    have body: "(if s ! i = 1 then s[i + 1 := of_bool (x ! i < h_h)]
           else s[i + 1 := of_bool (x ! i > l_l)]) = s[i + 1 := markov_next h_h l_l (s ! i) (x ! i)]"
      by (simp add: markov_next_def)
    show ?thesis
      using "1.IH" [OF True] True unfolding body
      by (subst markov_loop.simps, subst iter_loop.simps) (simp add: body)
  next
    case False
    then show ?thesis by (subst markov_loop.simps, subst iter_loop.simps) simp
  qed
qed

lemma markov_cython_loop_iter:
  "markov_cython_loop n h_h l_l x i s = iter_loop (markov_cython_next h_h l_l) n x i s"
proof (induction n h_h l_l x i s rule: markov_cython_loop.induct)
  case (1 n h_h l_l x i s)
  show ?case
  proof (cases "int i < n - 1")
    case True
    have body: "(if s ! i = 1 then s[i + 1 := of_bool (x ! i < h_h)]
           else s[i + 1 := of_bool (x ! i > l_l)]) = s[i + 1 := markov_cython_next h_h l_l (s ! i) (x ! i)]"
      by (simp add: markov_cython_next_def)
    show ?thesis
      using "1.IH" [OF True] True unfolding body
      by (subst markov_cython_loop.simps, subst iter_loop.simps) (simp add: body)
  next
    case False
    then show ?thesis by (subst markov_cython_loop.simps, subst iter_loop.simps) simp
  qed
qed

lemma markov1_loop_iter:
  "markov1_loop n h_h l_l [1, 0] x i s = iter_loop (markov1_next h_h l_l) n x i s"
proof (induction n h_h l_l "[1, 0 :: real]" x i s rule: markov1_loop.induct)
  case (1 n h_h l_l x i s)
  show ?case
  proof (cases "int i < n - 1")
    case True
    have body: "(if s ! i = 1 then
             (if x ! i \<le> h_h then s[i + 1 := [1, 0] ! 0]
              else s[i + 1 := [1, 0] ! 1])
           else
             (if x ! i \<le> l_l then s[i + 1 := [1, 0] ! 1]
              else s[i + 1 := [1, 0] ! 0])) = s[i + 1 := markov1_next h_h l_l (s ! i) (x ! i)]"
      by (simp add: markov1_next_def)
    show ?thesis
      using "1.hyps" [OF True] True unfolding body
      by (subst markov1_loop.simps, subst iter_loop.simps) (simp add: body)
  next
    case False
    then show ?thesis by (subst markov1_loop.simps, subst iter_loop.simps) simp
  qed
qed


subsection \<open>What a run returns\<close>

lemma iter_run:
  assumes "1 \<le> n" and "length s0 = nat n"
  shows "length (iter_loop f n (map rng [0..<nat n]) 0 s0) = nat n \<and>
         iter_loop f n (map rng [0..<nat n]) 0 s0 ! 0 = s0 ! 0 \<and>
         (\<forall>j. int j < n - 1 \<longrightarrow>
            iter_loop f n (map rng [0..<nat n]) 0 s0 ! (j + 1) =
              f (iter_loop f n (map rng [0..<nat n]) 0 s0 ! j) (rng j))"
proof -
  let ?s = "iter_loop f n (map rng [0..<nat n]) 0 s0"
  have "?s ! (j + 1) = f (?s ! j) (rng j)" if "int j < n - 1" for j
  proof -
    from that assms have "j + 1 < length s0" and "j < nat n" by auto
    then show ?thesis
      using iter_loop_step [of 0 j n s0 f "map rng [0..<nat n]"] that by simp
  qed
  moreover have "?s ! 0 = s0 ! 0"
    by (rule iter_loop_prefix) simp
  ultimately show ?thesis using assms by simp
qed

lemma markov_run:
  assumes "1 \<le> n"
  shows "\<exists>s. markov n h_h l_l mem rng = Inr s \<and> length s = nat n \<and> s ! 0 = 1 \<and>
           (\<forall>j. int j < n - 1 \<longrightarrow> s ! (j + 1) = markov_next h_h l_l (s ! j) (rng j))"
proof -
  let ?start = "(map mem [0..<nat n])[0 := 1]"
  let ?s = "iter_loop (markov_next h_h l_l) n (map rng [0..<nat n]) 0 ?start"
  have ret: "markov n h_h l_l mem rng = Inr ?s"
    using assms
    by (simp add: markov_def np_empty_def store0_def np_random_uniform_def markov_loop_iter)
  have "length ?start = nat n" by simp
  from iter_run [OF assms this, of "markov_next h_h l_l" rng] assms
  have "length ?s = nat n \<and> ?s ! 0 = 1 \<and>
         (\<forall>j. int j < n - 1 \<longrightarrow> ?s ! (j + 1) = markov_next h_h l_l (?s ! j) (rng j))"
    by simp
  with ret show ?thesis by blast
qed

lemma markov1_run:
  assumes "1 \<le> n"
  shows "\<exists>s. markov1 n h_h l_l mem rng = Inr s \<and> length s = nat n \<and> s ! 0 = 1 \<and>
           (\<forall>j. int j < n - 1 \<longrightarrow> s ! (j + 1) = markov1_next h_h l_l (s ! j) (rng j))"
proof -
  let ?start = "(map mem [0..<nat n])[0 := 1]"
  let ?s = "iter_loop (markov1_next h_h l_l) n (map rng [0..<nat n]) 0 ?start"
  have ret: "markov1 n h_h l_l mem rng = Inr ?s"
    using assms
    by (simp add: markov1_def np_empty_def store0_def np_random_uniform_def markov1_loop_iter)
  have "length ?start = nat n" by simp
  from iter_run [OF assms this, of "markov1_next h_h l_l" rng] assms
  have "length ?s = nat n \<and> ?s ! 0 = 1 \<and>
         (\<forall>j. int j < n - 1 \<longrightarrow> ?s ! (j + 1) = markov1_next h_h l_l (?s ! j) (rng j))"
    by simp
  with ret show ?thesis by blast
qed

lemma markov_cython_run:
  assumes "1 \<le> n" and "n < 2 ^ 31"
  shows "\<exists>s. markov_cython n h_h l_l mem rng = Inr s \<and> length s = nat n \<and> s ! 0 = 1 \<and>
           (\<forall>j. int j < n - 1 \<longrightarrow> s ! (j + 1) = markov_cython_next h_h l_l (s ! j) (rng j))"
proof -
  let ?start = "(map mem [0..<nat n])[0 := 1]"
  let ?s = "iter_loop (markov_cython_next h_h l_l) n (map rng [0..<nat n]) 0 ?start"
  have ret: "markov_cython n h_h l_l mem rng = Inr ?s"
    using assms
    by (simp add: markov_cython_def np_empty_def store0_def np_random_uniform_def
        markov_cython_loop_iter)
  have "length ?start = nat n" by simp
  from iter_run [OF assms(1) this, of "markov_cython_next h_h l_l" rng] assms
  have "length ?s = nat n \<and> ?s ! 0 = 1 \<and>
         (\<forall>j. int j < n - 1 \<longrightarrow> ?s ! (j + 1) = markov_cython_next h_h l_l (?s ! j) (rng j))"
    by simp
  with ret show ?thesis by blast
qed

text \<open>A sequence is determined by its first element and its step rule.\<close>

lemma chain_unique:
  assumes len: "length s = nat n" "length s' = nat n"
    and start: "s ! 0 = s' ! 0"
    and step: "\<forall>j. int j < n - 1 \<longrightarrow> s ! (j + 1) = f (s ! j) (rng j)"
    and step': "\<forall>j. int j < n - 1 \<longrightarrow> s' ! (j + 1) = f' (s' ! j) (rng' j)"
    and agree: "\<forall>j. int j < n - 1 \<longrightarrow> f (s ! j) (rng j) = f' (s ! j) (rng' j)"
  shows "s = s'"
proof (rule nth_equalityI)
  show "length s = length s'" using len by simp
next
  fix k
  assume "k < length s"
  then have "k < nat n" using len by simp
  then show "s ! k = s' ! k"
  proof (induction k)
    case 0
    show ?case by (rule start)
  next
    case (Suc k)
    then have "int k < n - 1" and "k < nat n" by auto
    with Suc.IH step step' agree show ?case by simp
  qed
qed

lemma chain_binary:
  fixes s :: "'a::zero_neq_one list"
  assumes "length s = nat n" and "s ! 0 = 1"
    and "\<forall>j. int j < n - 1 \<longrightarrow> s ! (j + 1) = 0 \<or> s ! (j + 1) = 1"
  shows "set s \<subseteq> {0, 1}"
proof
  fix e
  assume "e \<in> set s"
  then obtain k where k: "k < length s" "e = s ! k" by (auto simp: in_set_conv_nth)
  show "e \<in> {0, 1}"
  proof (cases k)
    case 0
    with k assms show ?thesis by simp
  next
    case (Suc j)
    with k assms(1) have "int j < n - 1" by auto
    with assms(3) Suc k show ?thesis by auto
  qed
qed

lemma markov_next_binary: "markov_next h_h l_l s r = 0 \<or> markov_next h_h l_l s r = 1"
  by (simp add: markov_next_def)

lemma markov_cython_next_binary:
  "markov_cython_next h_h l_l s r = 0 \<or> markov_cython_next h_h l_l s r = 1"
  by (simp add: markov_cython_next_def)

subsection \<open>The probability of an interval of draws\<close>

lemma grid_count_le:
  assumes l: "0 \<le> l" and N: "0 < N"
  shows "{j. j < N \<and> real j / real N \<le> l} = {..<min N (Suc (nat \<lfloor>l * real N\<rfloor>))}"
proof (rule set_eqI)
  fix j
  have nn: "0 \<le> \<lfloor>l * real N\<rfloor>" using l by simp
  have "real j / real N \<le> l \<longleftrightarrow> real j \<le> l * real N"
    using N by (simp only: pos_divide_le_eq of_nat_0_less_iff)
  also have "\<dots> \<longleftrightarrow> int j \<le> \<lfloor>l * real N\<rfloor>"
    by (simp only: le_floor_iff of_int_of_nat_eq)
  also have "\<dots> \<longleftrightarrow> j \<le> nat \<lfloor>l * real N\<rfloor>"
    using nn by (simp only: le_nat_iff)
  finally have "real j / real N \<le> l \<longleftrightarrow> j < Suc (nat \<lfloor>l * real N\<rfloor>)"
    by (simp only: less_Suc_eq_le)
  then show "j \<in> {j. j < N \<and> real j / real N \<le> l} \<longleftrightarrow>
             j \<in> {..<min N (Suc (nat \<lfloor>l * real N\<rfloor>))}"
    by (simp only: mem_Collect_eq lessThan_iff min_less_iff_conj)
qed

lemma grid_fraction_le_bounds:
  assumes l: "0 \<le> l" "l \<le> 1" and N: "0 < N"
  shows "l \<le> grid_fraction (\<lambda>r. r \<le> l) N"
    and "grid_fraction (\<lambda>r. r \<le> l) N \<le> l + 1 / real N"
proof -
  let ?a = "nat \<lfloor>l * real N\<rfloor>"
  let ?m = "min N (Suc ?a)"
  have nn: "0 \<le> \<lfloor>l * real N\<rfloor>" using l by simp
  have card: "card {j. j < N \<and> real j / real N \<le> l} = ?m"
    by (simp only: grid_count_le [OF l(1) N] card_lessThan)
  have frac: "grid_fraction (\<lambda>r. r \<le> l) N = real ?m / real N"
    by (simp only: grid_fraction_def card)
  have a: "real (Suc ?a) = of_int \<lfloor>l * real N\<rfloor> + 1"
    using nn by simp
  have fl: "of_int \<lfloor>l * real N\<rfloor> \<le> l * real N" "l * real N < of_int \<lfloor>l * real N\<rfloor> + 1"
    by linarith+
  have N1: "l * real N \<le> real N"
    by (rule mult_left_le_one_le) (use l in simp_all)
  have "l * real N \<le> real (Suc ?a)" using fl(2) a by linarith
  with N1 have lo: "l * real N \<le> real ?m" by (simp only: min_def split: if_split) simp
  have "real ?m \<le> real (Suc ?a)" by (simp only: of_nat_le_iff min.cobounded2)
  then have hi: "real ?m \<le> l * real N + 1" using fl(1) a by linarith
  have Npos: "0 < real N" using N by simp
  show "l \<le> grid_fraction (\<lambda>r. r \<le> l) N"
    unfolding frac using lo Npos by (simp only: pos_le_divide_eq)
  have "real ?m / real N \<le> (l * real N + 1) / real N"
    using hi Npos by (intro divide_right_mono) simp_all
  also have "\<dots> = l + 1 / real N"
    using Npos by (simp add: add_divide_distrib)
  finally show "grid_fraction (\<lambda>r. r \<le> l) N \<le> l + 1 / real N"
    unfolding frac .
qed

lemma uniform_prob_le:
  assumes l: "0 \<le> l" "l \<le> 1"
  shows "uniform_prob (\<lambda>r. r \<le> l) l"
  unfolding uniform_prob_def
proof (rule tendsto_sandwich)
  show "eventually (\<lambda>N. l \<le> grid_fraction (\<lambda>r. r \<le> l) N) sequentially"
    using eventually_gt_at_top [of "0::nat"]
    by eventually_elim (rule grid_fraction_le_bounds(1) [OF l])
  show "eventually (\<lambda>N. grid_fraction (\<lambda>r. r \<le> l) N \<le> l + 1 / real N) sequentially"
    using eventually_gt_at_top [of "0::nat"]
    by eventually_elim (rule grid_fraction_le_bounds(2) [OF l])
  show "(\<lambda>N. l) \<longlonglongrightarrow> l" by simp
  have "(\<lambda>N. l + 1 / real N) \<longlonglongrightarrow> l + 0"
    by (intro tendsto_add tendsto_const lim_1_over_n)
  then show "(\<lambda>N. l + 1 / real N) \<longlonglongrightarrow> l" by simp
qed

lemma grid_fraction_complement:
  assumes N: "0 < N"
  shows "grid_fraction (\<lambda>r. \<not> E r) N = 1 - grid_fraction E N"
proof -
  let ?B = "{j. j < N \<and> E (real j / real N)}"
  have "{j. j < N \<and> \<not> E (real j / real N)} = {..<N} - ?B" by auto
  moreover have "card ({..<N} - ?B) = card {..<N} - card ?B"
    by (rule card_Diff_subset) auto
  moreover have "card ?B \<le> N"
    using card_mono [of "{..<N}" ?B] by auto
  ultimately have "real (card {j. j < N \<and> \<not> E (real j / real N)}) = real N - real (card ?B)"
    by simp
  then show ?thesis using N by (simp add: grid_fraction_def diff_divide_distrib)
qed

lemma uniform_prob_gt:
  assumes l: "0 \<le> l" "l \<le> 1"
  shows "uniform_prob (\<lambda>r. l < r) (1 - l)"
proof -
  have "(\<lambda>N. 1 - grid_fraction (\<lambda>r. r \<le> l) N) \<longlonglongrightarrow> 1 - l"
    using uniform_prob_le [OF l] unfolding uniform_prob_def
    by (intro tendsto_diff tendsto_const)
  moreover have "eventually
      (\<lambda>N. 1 - grid_fraction (\<lambda>r. r \<le> l) N = grid_fraction (\<lambda>r. l < r) N) sequentially"
    using eventually_gt_at_top [of "0::nat"]
  proof eventually_elim
    case (elim N)
    have "(\<lambda>r. l < r) = (\<lambda>r. \<not> r \<le> l)" by (simp add: not_le)
    then show ?case using grid_fraction_complement [OF elim, of "\<lambda>r. r \<le> l"] by simp
  qed
  ultimately show ?thesis
    unfolding uniform_prob_def by (rule Lim_transform_eventually)
qed

section \<open>Claims about the state-sequence generator\<close>

text \<open>
  C1 (as stated). The stated rule keeps state 0 when \<open>r > l_l\<close>. In the run below
  position 1 holds state 0 and the draw there is 7/10, above \<open>l_l = 1/2\<close>: the stated
  rule gives 0 for position 2, the generator stores 1.
\<close>

theorem markov_spec_rule_counterexample:
  "markov 3 0 (1 / 2) zero_mem high_draws = Inr [1, 0, 1] \<and>
   high_draws 1 = 7 / 10 \<and>
   spec_next 0 (1 / 2) ([1, 0, 1] ! 1) (high_draws 1) = 0 \<and>
   [1, 0, 1 :: real] ! 2 \<noteq> spec_next 0 (1 / 2) ([1, 0, 1] ! 1) (high_draws 1)"
  by (simp add: markov_def np_empty_def store0_def np_random_uniform_def markov_loop.simps
      zero_mem_def high_draws_def spec_next_def upt_rec)

text \<open>
  C1 (amended). For \<open>n \<ge> 1\<close>, \<open>markov\<close> returns a sequence whose position 0 is 1 and,
  for every position \<open>i\<close> from 0 to \<open>n - 2\<close> with draw \<open>r = x[i]\<close>: from state 1 the next
  state is 1 when \<open>r < h_h\<close> and 0 otherwise; from state 0 the next state is 1 when
  \<open>r > l_l\<close> and 0 otherwise.
\<close>

theorem markov_step_rule:
  assumes "1 \<le> n"
  shows "\<exists>s. markov n h_h l_l mem rng = Inr s \<and> length s = nat n \<and> s ! 0 = 1 \<and>
           (\<forall>i. int i \<le> n - 2 \<longrightarrow>
              (s ! i = 1 \<longrightarrow> s ! (i + 1) = (if rng i < h_h then 1 else 0)) \<and>
              (s ! i = 0 \<longrightarrow> s ! (i + 1) = (if rng i > l_l then 1 else 0)))"
proof -
  from markov_run [OF assms, of h_h l_l mem rng] obtain s where
    s: "markov n h_h l_l mem rng = Inr s" "length s = nat n" "s ! 0 = 1"
       "\<forall>j. int j < n - 1 \<longrightarrow> s ! (j + 1) = markov_next h_h l_l (s ! j) (rng j)"
    by blast
  have "(s ! i = 1 \<longrightarrow> s ! (i + 1) = (if rng i < h_h then 1 else 0)) \<and>
        (s ! i = 0 \<longrightarrow> s ! (i + 1) = (if rng i > l_l then 1 else 0))"
    if "int i \<le> n - 2" for i
  proof -
    from that have "int i < n - 1" by simp
    with s(4) have "s ! (i + 1) = markov_next h_h l_l (s ! i) (rng i)" by blast
    then show ?thesis by (simp add: markov_next_def)
  qed
  with s show ?thesis by blast
qed

theorem markov_step_rule_witness:
  "(1::int) \<le> 3 \<and>
   (\<exists>s. markov 3 0 (1 / 2) zero_mem high_draws = Inr s \<and> length s = nat 3 \<and> s ! 0 = 1 \<and>
      (\<forall>i. int i \<le> 3 - 2 \<longrightarrow>
         (s ! i = 1 \<longrightarrow> s ! (i + 1) = (if high_draws i < 0 then 1 else 0)) \<and>
         (s ! i = 0 \<longrightarrow> s ! (i + 1) = (if high_draws i > 1 / 2 then 1 else 0))))"
proof -
  have h: "(1::int) \<le> 3" by simp
  from markov_step_rule [OF h, of 0 "1 / 2" zero_mem high_draws] h show ?thesis by blast
qed

text \<open>
  C4. For every \<open>n \<ge> 1\<close>, all parameters and every draw stream, \<open>markov\<close> returns a
  sequence of exactly \<open>n\<close> elements whose element 0 is 1 and whose every element is 0
  or 1; for \<open>n = 1\<close> it is \<open>[1]\<close>. The same holds for \<open>markov_cython\<close> whenever \<open>n\<close> fits
  its C \<open>int\<close> parameter.
\<close>

theorem markov_shape:
  assumes "1 \<le> n"
  shows "(\<exists>s. markov n h_h l_l mem rng = Inr s \<and> length s = nat n \<and> s ! 0 = 1 \<and>
            (\<forall>e \<in> set s. e = 0 \<or> e = 1) \<and> (n = 1 \<longrightarrow> s = [1])) \<and>
         (n < 2 ^ 31 \<longrightarrow>
            (\<exists>s. markov_cython n h_h l_l cmem rng = Inr s \<and> length s = nat n \<and> s ! 0 = 1 \<and>
               (\<forall>e \<in> set s. e = 0 \<or> e = 1) \<and> (n = 1 \<longrightarrow> s = [1])))"
proof -
  have single: "s = [1]" if "length s = nat n" "s ! 0 = 1" "n = 1" for s :: "'a::one list"
  proof -
    from that have "length s = 1" by simp
    then obtain a where "s = [a]" by (cases s) auto
    with that(2) show ?thesis by simp
  qed
  from markov_run [OF assms, of h_h l_l mem rng] obtain s where
    s: "markov n h_h l_l mem rng = Inr s" "length s = nat n" "s ! 0 = 1"
       "\<forall>j. int j < n - 1 \<longrightarrow> s ! (j + 1) = markov_next h_h l_l (s ! j) (rng j)"
    by blast
  have "\<forall>j. int j < n - 1 \<longrightarrow> s ! (j + 1) = 0 \<or> s ! (j + 1) = 1"
    using s(4) markov_next_binary by simp
  from chain_binary [OF s(2) s(3) this] have "\<forall>e \<in> set s. e = 0 \<or> e = 1" by auto
  with s single [OF s(2) s(3)] have first: "\<exists>s. markov n h_h l_l mem rng = Inr s \<and>
      length s = nat n \<and> s ! 0 = 1 \<and> (\<forall>e \<in> set s. e = 0 \<or> e = 1) \<and> (n = 1 \<longrightarrow> s = [1])"
    by blast
  have second: "\<exists>s. markov_cython n h_h l_l cmem rng = Inr s \<and> length s = nat n \<and> s ! 0 = 1 \<and>
               (\<forall>e \<in> set s. e = 0 \<or> e = 1) \<and> (n = 1 \<longrightarrow> s = [1])" if "n < 2 ^ 31"
  proof -
    from markov_cython_run [OF assms that, of h_h l_l cmem rng] obtain c where
      c: "markov_cython n h_h l_l cmem rng = Inr c" "length c = nat n" "c ! 0 = 1"
         "\<forall>j. int j < n - 1 \<longrightarrow> c ! (j + 1) = markov_cython_next h_h l_l (c ! j) (rng j)"
      by blast
    have "\<forall>j. int j < n - 1 \<longrightarrow> c ! (j + 1) = 0 \<or> c ! (j + 1) = 1"
      using c(4) markov_cython_next_binary by simp
    from chain_binary [OF c(2) c(3) this] have "\<forall>e \<in> set c. e = 0 \<or> e = 1" by auto
    with c single [OF c(2) c(3)] show ?thesis by blast
  qed
  from first second show ?thesis by blast
qed

theorem markov_shape_witness:
  "(1::int) \<le> 4 \<and> (4::int) < 2 ^ 31 \<and>
   markov 4 (1 / 2) (1 / 2) seven_mem mixed_draws = Inr [1, 0, 0, 1] \<and>
   markov_cython 4 (1 / 2) (1 / 2) int_mem mixed_draws = Inr [1, 0, 0, 1] \<and>
   (\<exists>s. markov 4 (1 / 2) (1 / 2) seven_mem mixed_draws = Inr s \<and> length s = nat 4 \<and> s ! 0 = 1 \<and>
            (\<forall>e \<in> set s. e = 0 \<or> e = 1) \<and> ((4::int) = 1 \<longrightarrow> s = [1])) \<and>
   (\<exists>s. markov_cython 4 (1 / 2) (1 / 2) int_mem mixed_draws = Inr s \<and> length s = nat 4 \<and>
            s ! 0 = 1 \<and> (\<forall>e \<in> set s. e = 0 \<or> e = 1) \<and> ((4::int) = 1 \<longrightarrow> s = [1]))"
proof -
  have h: "(1::int) \<le> 4" and b: "(4::int) < 2 ^ 31" by simp_all
  have m: "markov 4 (1 / 2) (1 / 2) seven_mem mixed_draws = Inr [1, 0, 0, 1]"
    by (simp add: markov_def np_empty_def store0_def np_random_uniform_def markov_loop.simps
        seven_mem_def mixed_draws_def upt_rec)
  have c: "markov_cython 4 (1 / 2) (1 / 2) int_mem mixed_draws = Inr [1, 0, 0, 1]"
    by (simp add: markov_cython_def np_empty_def store0_def np_random_uniform_def
        markov_cython_loop.simps int_mem_def mixed_draws_def upt_rec)
  from markov_shape [OF h, of "1 / 2" "1 / 2" seven_mem mixed_draws int_mem] h b m c
  show ?thesis by blast
qed

text \<open>
  C6. For every draw stream in \<open>[0,1)\<close>: with \<open>h_h = 1\<close> every position after one
  whose state is 1 has state 1, and with \<open>l_l = 1\<close> every position after one whose
  state is 0 has state 0.
\<close>

theorem markov_absorbing:
  assumes "1 \<le> n" and "\<forall>i. 0 \<le> rng i \<and> rng i < 1"
  shows "(\<exists>s. markov n 1 l_l mem rng = Inr s \<and>
            (\<forall>i j. i \<le> j \<and> j < length s \<and> s ! i = 1 \<longrightarrow> s ! j = 1)) \<and>
         (\<exists>s. markov n h_h 1 mem rng = Inr s \<and>
            (\<forall>i j. i \<le> j \<and> j < length s \<and> s ! i = 0 \<longrightarrow> s ! j = 0))"
proof -
  from markov_run [OF assms(1), of 1 l_l mem rng] obtain s where
    s: "markov n 1 l_l mem rng = Inr s" "length s = nat n"
       "\<forall>j. int j < n - 1 \<longrightarrow> s ! (j + 1) = markov_next 1 l_l (s ! j) (rng j)"
    by blast
  have high: "s ! j = 1" if "i \<le> j" "j < length s" "s ! i = 1" for i j
    using that
  proof (induction j)
    case 0
    then show ?case by simp
  next
    case (Suc j)
    show ?case
    proof (cases "i = Suc j")
      case True
      with Suc.prems show ?thesis by simp
    next
      case False
      with Suc have prev: "s ! j = 1" by simp
      from Suc.prems s(2) have "int j < n - 1" by auto
      with s(3) have "s ! (j + 1) = markov_next 1 l_l (s ! j) (rng j)" by blast
      with prev assms(2) show ?thesis by (simp add: markov_next_def)
    qed
  qed
  from markov_run [OF assms(1), of h_h 1 mem rng] obtain t where
    t: "markov n h_h 1 mem rng = Inr t" "length t = nat n"
       "\<forall>j. int j < n - 1 \<longrightarrow> t ! (j + 1) = markov_next h_h 1 (t ! j) (rng j)"
    by blast
  have low: "t ! j = 0" if "i \<le> j" "j < length t" "t ! i = 0" for i j
    using that
  proof (induction j)
    case 0
    then show ?case by simp
  next
    case (Suc j)
    show ?case
    proof (cases "i = Suc j")
      case True
      with Suc.prems show ?thesis by simp
    next
      case False
      with Suc have prev: "t ! j = 0" by simp
      from Suc.prems t(2) have "int j < n - 1" by auto
      with t(3) have "t ! (j + 1) = markov_next h_h 1 (t ! j) (rng j)" by blast
      moreover have "\<not> rng j > 1" using assms(2) by (simp add: not_less less_imp_le)
      ultimately show ?thesis using prev by (simp add: markov_next_def)
    qed
  qed
  from s(1) high t(1) low show ?thesis by blast
qed

theorem markov_absorbing_witness:
  "(1::int) \<le> 4 \<and> (\<forall>i. 0 \<le> mixed_draws i \<and> mixed_draws i < 1) \<and>
   markov 4 (1 / 2) 1 seven_mem mixed_draws = Inr [1, 0, 0, 0] \<and>
   (\<exists>s. markov 4 1 (1 / 2) seven_mem mixed_draws = Inr s \<and>
            (\<forall>i j. i \<le> j \<and> j < length s \<and> s ! i = 1 \<longrightarrow> s ! j = 1)) \<and>
   (\<exists>s. markov 4 (1 / 2) 1 seven_mem mixed_draws = Inr s \<and>
            (\<forall>i j. i \<le> j \<and> j < length s \<and> s ! i = 0 \<longrightarrow> s ! j = 0))"
proof -
  have h: "(1::int) \<le> 4" by simp
  have d: "\<forall>i. 0 \<le> mixed_draws i \<and> mixed_draws i < 1" by (simp add: mixed_draws_def)
  have m: "markov 4 (1 / 2) 1 seven_mem mixed_draws = Inr [1, 0, 0, 0]"
    by (simp add: markov_def np_empty_def store0_def np_random_uniform_def markov_loop.simps
        seven_mem_def mixed_draws_def upt_rec)
  from markov_absorbing [OF h d, of "1 / 2" seven_mem "1 / 2"] h d m show ?thesis by blast
qed

lemma markov_low_run:
  "markov 3 0 l_l mem (low_draws r) = Inr [1, 0, of_bool (r > l_l)]"
  by (simp add: markov_def np_empty_def store0_def np_random_uniform_def markov_loop.simps
      low_draws_def upt_rec)

lemma markov1_low_run:
  "markov1 3 0 l_l mem (low_draws r) = Inr [1, 0, of_bool (r > l_l)]"
  by (simp add: markov1_def np_empty_def store0_def np_random_uniform_def markov1_loop.simps
      low_draws_def upt_rec)

text \<open>
  C7. In \<open>markov\<close> and in \<open>markov1\<close> every position follows the step rule of the loop,
  and when the current state is 0 the next state is 1 exactly when the draw satisfies
  \<open>r > l_l\<close> (and 0 exactly when \<open>r \<le> l_l\<close>). State 0 is reached and left: with
  \<open>h_h = 0\<close> and first draw 1/2 both functions return \<open>[1, 0, 1]\<close> when the second draw
  is above \<open>l_l\<close> and \<open>[1, 0, 0]\<close> otherwise. For \<open>l_l\<close> in \<open>[0,1]\<close> and a uniform second
  draw, the probability of the move from state 0 to state 1 in these runs is \<open>1 - l_l\<close>
  and the probability of staying in state 0 is \<open>l_l\<close>.
\<close>

theorem markov_leave_low:
  assumes "1 \<le> n"
  shows "(\<exists>s. markov n h_h l_l mem rng = Inr s \<and>
            (\<forall>i. int i < n - 1 \<longrightarrow>
               s ! (i + 1) =
                 (if s ! i = 1 then of_bool (rng i < h_h) else of_bool (rng i > l_l))) \<and>
            (\<forall>i. int i < n - 1 \<and> s ! i = 0 \<longrightarrow>
               (s ! (i + 1) = 1 \<longleftrightarrow> rng i > l_l) \<and> (s ! (i + 1) = 0 \<longleftrightarrow> rng i \<le> l_l))) \<and>
         (\<exists>s. markov1 n h_h l_l mem rng = Inr s \<and>
            (\<forall>i. int i < n - 1 \<longrightarrow>
               s ! (i + 1) =
                 (if s ! i = 1 then of_bool (rng i \<le> h_h) else of_bool (rng i > l_l))) \<and>
            (\<forall>i. int i < n - 1 \<and> s ! i = 0 \<longrightarrow>
               (s ! (i + 1) = 1 \<longleftrightarrow> rng i > l_l) \<and> (s ! (i + 1) = 0 \<longleftrightarrow> rng i \<le> l_l))) \<and>
         markov 3 0 l_l mem (low_draws r) = Inr [1, 0, of_bool (r > l_l)] \<and>
         markov1 3 0 l_l mem (low_draws r) = Inr [1, 0, of_bool (r > l_l)] \<and>
         (0 \<le> l_l \<and> l_l \<le> 1 \<longrightarrow>
            uniform_prob (\<lambda>r. markov 3 0 l_l mem (low_draws r) = Inr [1, 0, 1]) (1 - l_l) \<and>
            uniform_prob (\<lambda>r. markov 3 0 l_l mem (low_draws r) = Inr [1, 0, 0]) l_l \<and>
            uniform_prob (\<lambda>r. markov1 3 0 l_l mem (low_draws r) = Inr [1, 0, 1]) (1 - l_l) \<and>
            uniform_prob (\<lambda>r. markov1 3 0 l_l mem (low_draws r) = Inr [1, 0, 0]) l_l)"
proof -
  from markov_run [OF assms, of h_h l_l mem rng] obtain s where
    s: "markov n h_h l_l mem rng = Inr s"
       "\<forall>j. int j < n - 1 \<longrightarrow> s ! (j + 1) = markov_next h_h l_l (s ! j) (rng j)"
    by blast
  have a1: "s ! (i + 1) = (if s ! i = 1 then of_bool (rng i < h_h) else of_bool (rng i > l_l))"
    if "int i < n - 1" for i
    using s(2) that by (simp add: markov_next_def)
  have a2: "(s ! (i + 1) = 1 \<longleftrightarrow> rng i > l_l) \<and> (s ! (i + 1) = 0 \<longleftrightarrow> rng i \<le> l_l)"
    if "int i < n - 1 \<and> s ! i = 0" for i
    using a1 [of i] that by auto
  from markov1_run [OF assms, of h_h l_l mem rng] obtain t where
    t: "markov1 n h_h l_l mem rng = Inr t"
       "\<forall>j. int j < n - 1 \<longrightarrow> t ! (j + 1) = markov1_next h_h l_l (t ! j) (rng j)"
    by blast
  have b1: "t ! (i + 1) = (if t ! i = 1 then of_bool (rng i \<le> h_h) else of_bool (rng i > l_l))"
    if "int i < n - 1" for i
    using t(2) that by (simp add: markov1_next_def)
  have b2: "(t ! (i + 1) = 1 \<longleftrightarrow> rng i > l_l) \<and> (t ! (i + 1) = 0 \<longleftrightarrow> rng i \<le> l_l)"
    if "int i < n - 1 \<and> t ! i = 0" for i
    using b1 [of i] that by auto
  have ev: "(\<lambda>r. markov 3 0 l_l mem (low_draws r) = Inr [1, 0, 1]) = (\<lambda>r. l_l < r)"
    "(\<lambda>r. markov 3 0 l_l mem (low_draws r) = Inr [1, 0, 0]) = (\<lambda>r. r \<le> l_l)"
    "(\<lambda>r. markov1 3 0 l_l mem (low_draws r) = Inr [1, 0, 1]) = (\<lambda>r. l_l < r)"
    "(\<lambda>r. markov1 3 0 l_l mem (low_draws r) = Inr [1, 0, 0]) = (\<lambda>r. r \<le> l_l)"
    by (auto simp: markov_low_run markov1_low_run fun_eq_iff)
  have c: "uniform_prob (\<lambda>r. markov 3 0 l_l mem (low_draws r) = Inr [1, 0, 1]) (1 - l_l) \<and>
            uniform_prob (\<lambda>r. markov 3 0 l_l mem (low_draws r) = Inr [1, 0, 0]) l_l \<and>
            uniform_prob (\<lambda>r. markov1 3 0 l_l mem (low_draws r) = Inr [1, 0, 1]) (1 - l_l) \<and>
            uniform_prob (\<lambda>r. markov1 3 0 l_l mem (low_draws r) = Inr [1, 0, 0]) l_l"
    if "0 \<le> l_l \<and> l_l \<le> 1"
    unfolding ev using uniform_prob_gt [of l_l] uniform_prob_le [of l_l] that by simp
  have first: "\<exists>s. markov n h_h l_l mem rng = Inr s \<and>
            (\<forall>i. int i < n - 1 \<longrightarrow>
               s ! (i + 1) =
                 (if s ! i = 1 then of_bool (rng i < h_h) else of_bool (rng i > l_l))) \<and>
            (\<forall>i. int i < n - 1 \<and> s ! i = 0 \<longrightarrow>
               (s ! (i + 1) = 1 \<longleftrightarrow> rng i > l_l) \<and> (s ! (i + 1) = 0 \<longleftrightarrow> rng i \<le> l_l))"
    using s(1) a1 a2 by blast
  have second: "\<exists>s. markov1 n h_h l_l mem rng = Inr s \<and>
            (\<forall>i. int i < n - 1 \<longrightarrow>
               s ! (i + 1) =
                 (if s ! i = 1 then of_bool (rng i \<le> h_h) else of_bool (rng i > l_l))) \<and>
            (\<forall>i. int i < n - 1 \<and> s ! i = 0 \<longrightarrow>
               (s ! (i + 1) = 1 \<longleftrightarrow> rng i > l_l) \<and> (s ! (i + 1) = 0 \<longleftrightarrow> rng i \<le> l_l))"
    using t(1) b1 b2 by blast
  from first second c markov_low_run [of l_l mem r] markov1_low_run [of l_l mem r]
  show ?thesis by blast
qed

theorem markov_leave_low_witness:
  "(1::int) \<le> 4 \<and> (0::real) \<le> 1 / 2 \<and> (1 / 2 :: real) \<le> 1 \<and>
   markov 4 (1 / 2) (1 / 2) seven_mem mixed_draws = Inr [1, 0, 0, 1] \<and>
   markov1 4 (1 / 2) (1 / 2) seven_mem mixed_draws = Inr [1, 0, 0, 1] \<and>
   markov 3 0 (1 / 2) seven_mem (low_draws (7 / 10)) = Inr [1, 0, 1] \<and>
   markov1 3 0 (1 / 2) seven_mem (low_draws (7 / 10)) = Inr [1, 0, 1] \<and>
   markov1 3 0 (1 / 2) seven_mem (low_draws (3 / 10)) = Inr [1, 0, 0] \<and>
   uniform_prob (\<lambda>r. markov 3 0 (1 / 2) seven_mem (low_draws r) = Inr [1, 0, 1]) (1 / 2) \<and>
   uniform_prob (\<lambda>r. markov 3 0 (1 / 2) seven_mem (low_draws r) = Inr [1, 0, 0]) (1 / 2) \<and>
   uniform_prob (\<lambda>r. markov1 3 0 (1 / 2) seven_mem (low_draws r) = Inr [1, 0, 1]) (1 / 2) \<and>
   uniform_prob (\<lambda>r. markov1 3 0 (1 / 2) seven_mem (low_draws r) = Inr [1, 0, 0]) (1 / 2)"
proof -
  have h: "(1::int) \<le> 4" and l: "(0::real) \<le> 1 / 2" "(1 / 2 :: real) \<le> 1" by simp_all
  have m: "markov 4 (1 / 2) (1 / 2) seven_mem mixed_draws = Inr [1, 0, 0, 1]"
    by (simp add: markov_def np_empty_def store0_def np_random_uniform_def markov_loop.simps
        seven_mem_def mixed_draws_def upt_rec)
  have m1: "markov1 4 (1 / 2) (1 / 2) seven_mem mixed_draws = Inr [1, 0, 0, 1]"
    by (simp add: markov1_def np_empty_def store0_def np_random_uniform_def markov1_loop.simps
        seven_mem_def mixed_draws_def upt_rec)
  note inst = markov_leave_low [OF h, of "1 / 2" "1 / 2" seven_mem mixed_draws]
  have up: "uniform_prob (\<lambda>r. markov 3 0 (1 / 2) seven_mem (low_draws r) = Inr [1, 0, 1]) (1 / 2) \<and>
   uniform_prob (\<lambda>r. markov 3 0 (1 / 2) seven_mem (low_draws r) = Inr [1, 0, 0]) (1 / 2) \<and>
   uniform_prob (\<lambda>r. markov1 3 0 (1 / 2) seven_mem (low_draws r) = Inr [1, 0, 1]) (1 / 2) \<and>
   uniform_prob (\<lambda>r. markov1 3 0 (1 / 2) seven_mem (low_draws r) = Inr [1, 0, 0]) (1 / 2)"
    using inst [of "7 / 10"] l by simp
  have r1: "markov 3 0 (1 / 2) seven_mem (low_draws (7 / 10)) = Inr [1, 0, 1] \<and>
      markov1 3 0 (1 / 2) seven_mem (low_draws (7 / 10)) = Inr [1, 0, 1]"
    using inst [of "7 / 10"] by simp
  have r2: "markov1 3 0 (1 / 2) seven_mem (low_draws (3 / 10)) = Inr [1, 0, 0]"
    using inst [of "3 / 10"] by simp
  from h l m m1 up r1 r2 show ?thesis by blast
qed

text \<open>
  C8 (as stated). A transition probability outside \<open>[0,1]\<close> is not reported: with
  \<open>h_h = 3/2\<close> the generator returns a sequence.
\<close>

theorem markov_no_validation_counterexample:
  "markov 2 (3 / 2) (1 / 2) seven_mem high_draws = Inr [1, 1]"
  by (simp add: markov_def np_empty_def store0_def np_random_uniform_def markov_loop.simps
      seven_mem_def high_draws_def upt_rec)

text \<open>
  C8 (amended). Called with \<open>n < 1\<close>, \<open>markov\<close> raises before any sequence is produced
  (ValueError from the allocation when \<open>n < 0\<close>, IndexError from the store of the
  initial state when \<open>n = 0\<close>), whatever the other arguments are. Called with
  \<open>n \<ge> 1\<close> it returns a sequence whatever the values of \<open>h_h\<close> and \<open>l_l\<close>: transition
  probabilities are not checked.
\<close>

theorem markov_errors:
  "(n < 0 \<longrightarrow> markov n h_h l_l mem rng = Inl ValueError) \<and>
   (n = 0 \<longrightarrow> markov n h_h l_l mem rng = Inl IndexError) \<and>
   (1 \<le> n \<longrightarrow> (\<exists>s. markov n h_h l_l mem rng = Inr s))"
proof (intro conjI impI)
  assume "n < 0"
  then show "markov n h_h l_l mem rng = Inl ValueError"
    by (simp add: markov_def np_empty_def)
next
  assume "n = 0"
  then show "markov n h_h l_l mem rng = Inl IndexError"
    by (simp add: markov_def np_empty_def store0_def)
next
  assume "1 \<le> n"
  from markov_run [OF this, of h_h l_l mem rng]
  show "\<exists>s. markov n h_h l_l mem rng = Inr s" by blast
qed

theorem markov_errors_witness:
  "(- 1 :: int) < 0 \<and> markov (- 1) (1 / 2) (1 / 2) seven_mem high_draws = Inl ValueError \<and>
   markov 0 (1 / 2) (1 / 2) seven_mem high_draws = Inl IndexError \<and>
   (1 :: int) \<le> 2 \<and> (\<exists>s. markov 2 (3 / 2) (- 1) seven_mem high_draws = Inr s)"
  using markov_errors [of "- 1" "1 / 2" "1 / 2" seven_mem high_draws]
    markov_errors [of 0 "1 / 2" "1 / 2" seven_mem high_draws]
    markov_errors [of 2 "3 / 2" "- 1" seven_mem high_draws]
  by simp

text \<open>
  C9. For \<open>n \<ge> 1\<close>, two runs of \<open>markov\<close> with the same \<open>n\<close>, \<open>h_h\<close>, \<open>l_l\<close> whose draw
  streams agree on positions 0 to \<open>n - 2\<close> return the same sequence, whatever the
  uninitialised array held and whatever the later draws (among them \<open>x[n-1]\<close>) are.
\<close>

theorem markov_deterministic:
  assumes "1 \<le> n" and "\<forall>i. int i \<le> n - 2 \<longrightarrow> rng i = rng' i"
  shows "(\<exists>s. markov n h_h l_l mem rng = Inr s) \<and>
         markov n h_h l_l mem rng = markov n h_h l_l mem' rng'"
proof -
  from markov_run [OF assms(1), of h_h l_l mem rng] obtain s where
    s: "markov n h_h l_l mem rng = Inr s" "length s = nat n" "s ! 0 = 1"
       "\<forall>j. int j < n - 1 \<longrightarrow> s ! (j + 1) = markov_next h_h l_l (s ! j) (rng j)"
    by blast
  from markov_run [OF assms(1), of h_h l_l mem' rng'] obtain t where
    t: "markov n h_h l_l mem' rng' = Inr t" "length t = nat n" "t ! 0 = 1"
       "\<forall>j. int j < n - 1 \<longrightarrow> t ! (j + 1) = markov_next h_h l_l (t ! j) (rng' j)"
    by blast
  have "\<forall>j. int j < n - 1 \<longrightarrow>
          markov_next h_h l_l (s ! j) (rng j) = markov_next h_h l_l (s ! j) (rng' j)"
    using assms(2) by simp
  moreover have "s ! 0 = t ! 0" using s(3) t(3) by simp
  ultimately have "s = t"
    using s(2) t(2) s(4) t(4)
    by (intro chain_unique [where n = n and f = "markov_next h_h l_l" and rng = rng
          and f' = "markov_next h_h l_l" and rng' = rng'])
  with s(1) t(1) show ?thesis by simp
qed

theorem markov_deterministic_witness:
  "(1::int) \<le> 4 \<and> mixed_draws 0 = mixed_draws_alt 0 \<and> mixed_draws 1 = mixed_draws_alt 1 \<and>
   mixed_draws 2 = mixed_draws_alt 2 \<and> mixed_draws 3 \<noteq> mixed_draws_alt 3 \<and>
   (\<exists>s. markov 4 (1 / 2) (1 / 2) seven_mem mixed_draws = Inr s) \<and>
   markov 4 (1 / 2) (1 / 2) seven_mem mixed_draws =
     markov 4 (1 / 2) (1 / 2) zero_mem mixed_draws_alt"
proof -
  have h: "(1::int) \<le> 4" by simp
  have d: "\<forall>i. int i \<le> 4 - 2 \<longrightarrow> mixed_draws i = mixed_draws_alt i"
    by (simp add: mixed_draws_alt_def)
  have e: "mixed_draws 3 \<noteq> mixed_draws_alt 3"
    by (simp add: mixed_draws_alt_def mixed_draws_def)
  have f: "mixed_draws 0 = mixed_draws_alt 0 \<and> mixed_draws 1 = mixed_draws_alt 1 \<and>
      mixed_draws 2 = mixed_draws_alt 2"
    by (simp add: mixed_draws_alt_def)
  from markov_deterministic [OF h d, of "1 / 2" "1 / 2" seven_mem zero_mem] h e f
  show ?thesis by blast
qed

text \<open>
  C10. For \<open>n \<ge> 1\<close>, if no draw consumed while the current state is 1 equals \<open>h_h\<close>,
  \<open>markov1\<close> returns the sequence \<open>markov\<close> returns. From a state other than 1 the two
  step rules agree for every draw.
\<close>

theorem markov1_agrees:
  assumes "1 \<le> n" and "markov n h_h l_l mem rng = Inr s"
    and "\<forall>i. int i < n - 1 \<and> s ! i = 1 \<longrightarrow> rng i \<noteq> h_h"
  shows "markov1 n h_h l_l mem' rng = Inr s \<and>
         (\<forall>st r. st \<noteq> 1 \<longrightarrow> markov1_next h_h l_l st r = markov_next h_h l_l st r)"
proof -
  from markov_run [OF assms(1), of h_h l_l mem rng] assms(2) have
    s: "length s = nat n" "s ! 0 = 1"
       "\<forall>j. int j < n - 1 \<longrightarrow> s ! (j + 1) = markov_next h_h l_l (s ! j) (rng j)"
    by auto
  from markov1_run [OF assms(1), of h_h l_l mem' rng] obtain t where
    t: "markov1 n h_h l_l mem' rng = Inr t" "length t = nat n" "t ! 0 = 1"
       "\<forall>j. int j < n - 1 \<longrightarrow> t ! (j + 1) = markov1_next h_h l_l (t ! j) (rng j)"
    by blast
  have "\<forall>j. int j < n - 1 \<longrightarrow>
          markov_next h_h l_l (s ! j) (rng j) = markov1_next h_h l_l (s ! j) (rng j)"
    using assms(3) by (auto simp: markov_next_def markov1_next_def)
  moreover have "s ! 0 = t ! 0" using s(2) t(3) by simp
  ultimately have "s = t"
    using s(1) t(2) s(3) t(4)
    by (intro chain_unique [where n = n and f = "markov_next h_h l_l" and rng = rng
          and f' = "markov1_next h_h l_l" and rng' = rng])
  with t(1) show ?thesis by (simp add: markov_next_def markov1_next_def)
qed

theorem markov1_agrees_witness:
  "(1::int) \<le> 4 \<and> markov 4 (1 / 2) (1 / 2) seven_mem mixed_draws = Inr [1, 0, 0, 1] \<and>
   mixed_draws 0 \<noteq> 1 / 2 \<and> mixed_draws 1 \<noteq> 1 / 2 \<and> mixed_draws 2 \<noteq> 1 / 2 \<and>
   markov1 4 (1 / 2) (1 / 2) zero_mem mixed_draws = Inr [1, 0, 0, 1]"
proof -
  have h: "(1::int) \<le> 4" by simp
  have m: "markov 4 (1 / 2) (1 / 2) seven_mem mixed_draws = Inr [1, 0, 0, 1]"
    by (simp add: markov_def np_empty_def store0_def np_random_uniform_def markov_loop.simps
        seven_mem_def mixed_draws_def upt_rec)
  have d: "\<forall>i. int i < 4 - 1 \<and> [1, 0, 0, 1 :: real] ! i = 1 \<longrightarrow> mixed_draws i \<noteq> 1 / 2"
    by (simp add: mixed_draws_def)
  have e: "mixed_draws 0 \<noteq> 1 / 2 \<and> mixed_draws 1 \<noteq> 1 / 2 \<and> mixed_draws 2 \<noteq> 1 / 2"
    by (simp add: mixed_draws_def)
  from markov1_agrees [OF h m d, of zero_mem] h m e show ?thesis by blast
qed

section \<open>Properties of the orthonormalisation\<close>

subsection \<open>Shapes\<close>

lemma is_mat_length: "is_mat n k A \<Longrightarrow> length A = n"
  by (simp add: is_mat_def)

lemma is_mat_row: "is_mat n k A \<Longrightarrow> i < n \<Longrightarrow> length (A ! i) = k"
  by (simp add: is_mat_def)

lemma is_matI: "length A = n \<Longrightarrow> (\<And>i. i < n \<Longrightarrow> length (A ! i) = k) \<Longrightarrow> is_mat n k A"
  by (auto simp: is_mat_def in_set_conv_nth)

lemma ncols_mat: "is_mat n k A \<Longrightarrow> 0 < n \<Longrightarrow> ncols A = k"
  by (cases A) (auto simp: is_mat_def ncols_def)

lemma length_col [simp]: "length (col A j) = length A"
  by (simp add: col_def)

lemma col_nth: "i < length A \<Longrightarrow> col A j ! i = A ! i ! j"
  by (simp add: col_def)

lemma is_mat_transpose: "is_mat n k A \<Longrightarrow> 0 < n \<Longrightarrow> is_mat k n (transpose_np A)"
  by (auto simp: transpose_np_def ncols_mat is_mat_def)

lemma transpose_nth: "is_mat n k A \<Longrightarrow> 0 < n \<Longrightarrow> j < k \<Longrightarrow> transpose_np A ! j = col A j"
  by (simp add: transpose_np_def ncols_mat)

lemma is_mat_cols_upto: "is_mat n k A \<Longrightarrow> i \<le> k \<Longrightarrow> is_mat n i (cols_upto A i)"
  by (auto simp: cols_upto_def is_mat_def)

lemma col_cols_upto: "j < i \<Longrightarrow> col (cols_upto A i) j = col A j"
  by (simp add: col_def cols_upto_def)

lemma cols_upto_nth: "a < length A \<Longrightarrow> cols_upto A i ! a = take i (A ! a)"
  by (simp add: cols_upto_def)

lemma length_matvec [simp]: "length (matvec A x) = length A"
  by (simp add: matvec_def)

lemma matvec_nth: "i < length A \<Longrightarrow> matvec A x ! i = dot (A ! i) x"
  by (simp add: matvec_def)

lemma is_mat_matmul: "is_mat p m A \<Longrightarrow> is_mat m q B \<Longrightarrow> 0 < m \<Longrightarrow> is_mat p q (matmul A B)"
  by (auto simp: matmul_def is_mat_def ncols_mat)

lemma matmul_nth:
  "is_mat p m A \<Longrightarrow> is_mat m q B \<Longrightarrow> 0 < m \<Longrightarrow> i < p \<Longrightarrow> j < q \<Longrightarrow>
   matmul A B ! i ! j = dot (A ! i) (col B j)"
proof -
  assume a: "is_mat p m A" "is_mat m q B" "0 < m" "i < p" "j < q"
  then have "ncols B = q" and "length A = p" by (simp_all add: ncols_mat is_mat_def)
  with a show ?thesis by (simp add: matmul_def)
qed

lemma is_mat_eye: "is_mat n n (eye n)"
  by (auto simp: eye_def is_mat_def)

lemma eye_nth: "i < n \<Longrightarrow> j < n \<Longrightarrow> eye n ! i ! j = (if i = j then 1 else 0)"
  by (simp add: eye_def)

lemma is_mat_sub: "is_mat n k A \<Longrightarrow> is_mat n k B \<Longrightarrow> is_mat n k (mat_sub A B)"
  by (auto simp: mat_sub_def is_mat_def set_zip)

lemma mat_sub_nth:
  "is_mat n k A \<Longrightarrow> is_mat n k B \<Longrightarrow> i < n \<Longrightarrow> mat_sub A B ! i = vsub (A ! i) (B ! i)"
  by (simp add: mat_sub_def is_mat_def vsub_def)

subsection \<open>Dot products as sums\<close>

lemma dot_sum:
  fixes a b :: "real list"
  assumes "length a = m" and "length b = m"
  shows "dot a b = (\<Sum>l<m. a ! l * b ! l)"
proof -
  have "sum_list (map2 (*) a b) = (\<Sum>l = 0..<length (map2 (*) a b). map2 (*) a b ! l)"
    by (rule sum_list_sum_nth)
  also have "\<dots> = (\<Sum>l = 0..<m. a ! l * b ! l)"
    using assms by (intro sum.cong) auto
  finally show ?thesis by (simp add: dot_def atLeast0LessThan)
qed

lemma dot_commute:
  fixes a b :: "real list"
  shows "length a = length b \<Longrightarrow> dot a b = dot b a"
  by (simp add: dot_sum [of a "length a" b] dot_sum [of b "length a" a] mult.commute)

lemma dot_vsub_left:
  fixes a b c :: "real list"
  assumes "length a = m" "length b = m" "length c = m"
  shows "dot (vsub a b) c = dot a c - dot b c"
proof -
  have "length (vsub a b) = m" using assms by (simp add: vsub_def)
  then show ?thesis
    using assms
    by (simp add: dot_sum [of _ m] vsub_def sum_subtractf left_diff_distrib)
qed

lemma dot_vsub_right:
  fixes a b c :: "real list"
  assumes "length a = m" "length b = m" "length c = m"
  shows "dot c (vsub a b) = dot c a - dot c b"
proof -
  have "length (vsub a b) = m" using assms by (simp add: vsub_def)
  then show ?thesis
    using assms
    by (simp add: dot_sum [of _ m] vsub_def sum_subtractf right_diff_distrib)
qed

lemma dot_vadd_right:
  fixes a b c :: "real list"
  assumes "length a = m" "length b = m" "length c = m"
  shows "dot c (vadd a b) = dot c a + dot c b"
proof -
  have "length (vadd a b) = m" using assms by (simp add: vadd_def)
  then show ?thesis
    using assms
    by (simp add: dot_sum [of _ m] vadd_def sum.distrib distrib_left)
qed

lemma dot_smult_right:
  fixes a c :: "real list"
  assumes "length a = m" "length c = m"
  shows "dot c (smult s a) = s * dot c a"
proof -
  have "length (smult s a) = m" using assms by (simp add: smult_def)
  then show ?thesis
    using assms
    by (simp add: dot_sum [of _ m] smult_def sum_distrib_left mult_ac)
qed

lemma dot_zeros_right [simp]:
  fixes c :: "real list"
  shows "length c = m \<Longrightarrow> dot c (zeros m) = 0"
  by (simp add: dot_sum [of _ m] zeros_def)

lemma dot_self_zero:
  fixes v :: "real list"
  assumes "length v = m"
  shows "dot v v = 0 \<longleftrightarrow> v = zeros m"
proof
  assume z: "dot v v = 0"
  have "(\<Sum>l<m. v ! l * v ! l) = 0" using z assms by (simp add: dot_sum [of _ m])
  then have "\<forall>l\<in>{..<m}. v ! l * v ! l = 0"
    by (subst (asm) sum_nonneg_eq_0_iff) auto
  then have "\<forall>l<m. v ! l = 0" by simp
  then show "v = zeros m"
    using assms by (intro nth_equalityI) (auto simp: zeros_def)
next
  assume "v = zeros m"
  then show "dot v v = 0" by (simp add: dot_sum [of _ m] zeros_def)
qed

lemma norm2_dot: "norm2 v = sqrt (dot v v)"
proof -
  have "map (\<lambda>a. a ^ 2) v = map2 (*) v v"
    by (induction v) (simp_all add: power2_eq_square)
  then show ?thesis by (simp add: norm2_def dot_def)
qed

lemma norm2_zero_iff: "length v = m \<Longrightarrow> norm2 v = 0 \<longleftrightarrow> v = zeros m"
  by (simp add: norm2_dot dot_self_zero)

lemma dot_self_nonneg:
  fixes v :: "real list"
  shows "0 \<le> dot v v"
  by (simp add: dot_sum [of v "length v" v] sum_nonneg)

subsection \<open>Matrix-vector products\<close>

lemma matvec_matmul:
  fixes A B :: "real list list"
  assumes A: "is_mat p m A" and B: "is_mat m q B" and m: "0 < m" and x: "length x = q"
  shows "matvec (matmul A B) x = matvec A (matvec B x)"
proof (rule nth_equalityI)
  show "length (matvec (matmul A B) x) = length (matvec A (matvec B x))"
    by (simp add: matmul_def)
next
  fix i
  assume "i < length (matvec (matmul A B) x)"
  then have i: "i < p" using A by (simp add: matmul_def is_mat_def)
  have AB: "is_mat p q (matmul A B)" by (rule is_mat_matmul [OF A B m])
  have lenAi: "length (A ! i) = m" using A i by (rule is_mat_row)
  have "matvec (matmul A B) x ! i = dot (matmul A B ! i) x"
    using i AB by (simp add: matvec_nth is_mat_def)
  also have "\<dots> = (\<Sum>j<q. matmul A B ! i ! j * x ! j)"
    using is_mat_row [OF AB i] x by (rule dot_sum)
  also have "\<dots> = (\<Sum>j<q. (\<Sum>l<m. A ! i ! l * B ! l ! j) * x ! j)"
  proof (rule sum.cong [OF refl])
    fix j assume "j \<in> {..<q}"
    then have j: "j < q" by simp
    have "matmul A B ! i ! j = dot (A ! i) (col B j)"
      by (rule matmul_nth [OF A B m i j])
    also have "\<dots> = (\<Sum>l<m. A ! i ! l * col B j ! l)"
      using lenAi B by (intro dot_sum) (simp_all add: is_mat_def)
    also have "\<dots> = (\<Sum>l<m. A ! i ! l * B ! l ! j)"
      using B by (intro sum.cong) (simp_all add: col_nth is_mat_def)
    finally show "matmul A B ! i ! j * x ! j = (\<Sum>l<m. A ! i ! l * B ! l ! j) * x ! j"
      by simp
  qed
  also have "\<dots> = (\<Sum>j<q. \<Sum>l<m. A ! i ! l * (B ! l ! j * x ! j))"
    by (simp add: sum_distrib_right mult.assoc)
  also have "\<dots> = (\<Sum>l<m. \<Sum>j<q. A ! i ! l * (B ! l ! j * x ! j))"
    by (rule sum.swap)
  also have "\<dots> = (\<Sum>l<m. A ! i ! l * (\<Sum>j<q. B ! l ! j * x ! j))"
    by (simp add: sum_distrib_left)
  also have "\<dots> = (\<Sum>l<m. A ! i ! l * matvec B x ! l)"
  proof (rule sum.cong [OF refl])
    fix l assume "l \<in> {..<m}"
    then have l: "l < m" by simp
    have "matvec B x ! l = dot (B ! l) x"
      using l B by (simp add: matvec_nth is_mat_def)
    also have "\<dots> = (\<Sum>j<q. B ! l ! j * x ! j)"
      using is_mat_row [OF B l] x by (rule dot_sum)
    finally show "A ! i ! l * (\<Sum>j<q. B ! l ! j * x ! j) = A ! i ! l * matvec B x ! l"
      by simp
  qed
  also have "\<dots> = dot (A ! i) (matvec B x)"
    using lenAi B by (intro dot_sum [symmetric]) (simp_all add: is_mat_def)
  also have "\<dots> = matvec A (matvec B x) ! i"
    using i A by (simp add: matvec_nth is_mat_def)
  finally show "matvec (matmul A B) x ! i = matvec A (matvec B x) ! i" .
qed

lemma dot_matvec_adjoint:
  fixes Z :: "real list list"
  assumes Z: "is_mat n i Z" and n: "0 < n" and c: "length c = i" and w: "length w = n"
  shows "dot (matvec Z c) w = dot c (matvec (transpose_np Z) w)"
proof -
  have T: "is_mat i n (transpose_np Z)" by (rule is_mat_transpose [OF Z n])
  have "dot (matvec Z c) w = (\<Sum>a<n. matvec Z c ! a * w ! a)"
    using Z w by (intro dot_sum) (simp_all add: is_mat_def)
  also have "\<dots> = (\<Sum>a<n. (\<Sum>l<i. Z ! a ! l * c ! l) * w ! a)"
  proof (rule sum.cong [OF refl])
    fix a assume "a \<in> {..<n}"
    then have a: "a < n" by simp
    have "matvec Z c ! a = dot (Z ! a) c"
      using a Z by (simp add: matvec_nth is_mat_def)
    also have "\<dots> = (\<Sum>l<i. Z ! a ! l * c ! l)"
      using is_mat_row [OF Z a] c by (rule dot_sum)
    finally show "matvec Z c ! a * w ! a = (\<Sum>l<i. Z ! a ! l * c ! l) * w ! a" by simp
  qed
  also have "\<dots> = (\<Sum>a<n. \<Sum>l<i. c ! l * (Z ! a ! l * w ! a))"
    by (simp only: sum_distrib_right) (simp add: mult_ac)
  also have "\<dots> = (\<Sum>l<i. \<Sum>a<n. c ! l * (Z ! a ! l * w ! a))"
    by (rule sum.swap)
  also have "\<dots> = (\<Sum>l<i. c ! l * (\<Sum>a<n. Z ! a ! l * w ! a))"
    by (simp add: sum_distrib_left)
  also have "\<dots> = (\<Sum>l<i. c ! l * matvec (transpose_np Z) w ! l)"
  proof (rule sum.cong [OF refl])
    fix l assume "l \<in> {..<i}"
    then have l: "l < i" by simp
    have "matvec (transpose_np Z) w ! l = dot (transpose_np Z ! l) w"
      using l T by (simp add: matvec_nth is_mat_def)
    also have "\<dots> = dot (col Z l) w"
      by (simp add: transpose_nth [OF Z n l])
    also have "\<dots> = (\<Sum>a<n. col Z l ! a * w ! a)"
      using Z w by (intro dot_sum) (simp_all add: is_mat_def)
    also have "\<dots> = (\<Sum>a<n. Z ! a ! l * w ! a)"
      using Z by (intro sum.cong) (simp_all add: col_nth is_mat_def)
    finally show "c ! l * (\<Sum>a<n. Z ! a ! l * w ! a) = c ! l * matvec (transpose_np Z) w ! l"
      by simp
  qed
  also have "\<dots> = dot c (matvec (transpose_np Z) w)"
    using c T by (intro dot_sum [symmetric]) (simp_all add: is_mat_def)
  finally show ?thesis .
qed

lemma matvec_transpose_nth:
  assumes "is_mat n i Z" and "0 < n" and "l < i"
  shows "matvec (transpose_np Z) w ! l = dot (col Z l) w"
proof -
  have "is_mat i n (transpose_np Z)" by (rule is_mat_transpose [OF assms(1,2)])
  then have "matvec (transpose_np Z) w ! l = dot (transpose_np Z ! l) w"
    using assms(3) by (simp add: matvec_nth is_mat_def)
  then show ?thesis
    by (simp add: transpose_nth [OF assms])
qed

lemma matvec_mat_sub:
  assumes A: "is_mat n k A" and B: "is_mat n k B" and x: "length x = k"
  shows "matvec (mat_sub A B) x = vsub (matvec A x) (matvec B x)"
proof (rule nth_equalityI)
  show "length (matvec (mat_sub A B) x) = length (vsub (matvec A x) (matvec B x))"
    using A B by (simp add: mat_sub_def vsub_def is_mat_def)
next
  fix i
  assume "i < length (matvec (mat_sub A B) x)"
  then have i: "i < n" using A B by (simp add: mat_sub_def is_mat_def)
  have "matvec (mat_sub A B) x ! i = dot (vsub (A ! i) (B ! i)) x"
    using i is_mat_sub [OF A B] by (simp add: matvec_nth is_mat_def mat_sub_nth [OF A B i])
  also have "\<dots> = dot (A ! i) x - dot (B ! i) x"
    using is_mat_row [OF A i] is_mat_row [OF B i] x by (rule dot_vsub_left)
  also have "\<dots> = vsub (matvec A x) (matvec B x) ! i"
    using i A B by (simp add: vsub_def matvec_nth is_mat_def)
  finally show "matvec (mat_sub A B) x ! i = vsub (matvec A x) (matvec B x) ! i" .
qed

lemma matvec_eye:
  fixes x :: "real list"
  assumes "length x = n"
  shows "matvec (eye n) x = x"
proof (rule nth_equalityI)
  show "length (matvec (eye n) x) = length x"
    using assms by (simp add: eye_def)
next
  fix i
  assume "i < length (matvec (eye n) x)"
  then have i: "i < n" by (simp add: eye_def)
  have "matvec (eye n) x ! i = dot (eye n ! i) x"
    using i by (simp add: matvec_nth eye_def)
  also have "\<dots> = (\<Sum>j<n. eye n ! i ! j * x ! j)"
    using assms i by (intro dot_sum) (simp_all add: eye_def)
  also have "\<dots> = (\<Sum>j<n. if j = i then x ! j else 0)"
    using i by (intro sum.cong) (auto simp: eye_nth)
  also have "\<dots> = x ! i"
    using i by simp
  finally show "matvec (eye n) x ! i = x ! i" .
qed

lemma matvec_vsub:
  fixes A :: "real list list"
  assumes A: "is_mat n k A" and a: "length a = k" and b: "length b = k"
  shows "matvec A (vsub a b) = vsub (matvec A a) (matvec A b)"
proof (rule nth_equalityI)
  show "length (matvec A (vsub a b)) = length (vsub (matvec A a) (matvec A b))"
    by (simp add: vsub_def)
next
  fix i
  assume "i < length (matvec A (vsub a b))"
  then have i: "i < n" using A by (simp add: is_mat_def)
  have "matvec A (vsub a b) ! i = dot (A ! i) (vsub a b)"
    using i A by (simp add: matvec_nth is_mat_def)
  also have "\<dots> = dot (A ! i) a - dot (A ! i) b"
    using a b is_mat_row [OF A i] by (rule dot_vsub_right)
  also have "\<dots> = vsub (matvec A a) (matvec A b) ! i"
    using i A by (simp add: vsub_def matvec_nth is_mat_def)
  finally show "matvec A (vsub a b) ! i = vsub (matvec A a) (matvec A b) ! i" .
qed

lemma matvec_vadd:
  fixes A :: "real list list"
  assumes A: "is_mat n k A" and a: "length a = k" and b: "length b = k"
  shows "matvec A (vadd a b) = vadd (matvec A a) (matvec A b)"
proof (rule nth_equalityI)
  show "length (matvec A (vadd a b)) = length (vadd (matvec A a) (matvec A b))"
    by (simp add: vadd_def)
next
  fix i
  assume "i < length (matvec A (vadd a b))"
  then have i: "i < n" using A by (simp add: is_mat_def)
  have "matvec A (vadd a b) ! i = dot (A ! i) (vadd a b)"
    using i A by (simp add: matvec_nth is_mat_def)
  also have "\<dots> = dot (A ! i) a + dot (A ! i) b"
    using a b is_mat_row [OF A i] by (rule dot_vadd_right)
  also have "\<dots> = vadd (matvec A a) (matvec A b) ! i"
    using i A by (simp add: vadd_def matvec_nth is_mat_def)
  finally show "matvec A (vadd a b) ! i = vadd (matvec A a) (matvec A b) ! i" .
qed

lemma matvec_smult:
  fixes A :: "real list list"
  assumes A: "is_mat n k A" and a: "length a = k"
  shows "matvec A (smult s a) = smult s (matvec A a)"
proof (rule nth_equalityI)
  show "length (matvec A (smult s a)) = length (smult s (matvec A a))"
    by (simp add: smult_def)
next
  fix i
  assume "i < length (matvec A (smult s a))"
  then have i: "i < n" using A by (simp add: is_mat_def)
  have "matvec A (smult s a) ! i = dot (A ! i) (smult s a)"
    using i A by (simp add: matvec_nth is_mat_def)
  also have "\<dots> = s * dot (A ! i) a"
    using a is_mat_row [OF A i] by (rule dot_smult_right)
  also have "\<dots> = smult s (matvec A a) ! i"
    using i A by (simp add: smult_def matvec_nth is_mat_def)
  finally show "matvec A (smult s a) ! i = smult s (matvec A a) ! i" .
qed

lemma matvec_zeros:
  fixes A :: "real list list"
  assumes A: "is_mat n k A"
  shows "matvec A (zeros k) = zeros n"
proof (rule nth_equalityI)
  show "length (matvec A (zeros k)) = length (zeros n)"
    using A by (simp add: zeros_def is_mat_def)
next
  fix i
  assume "i < length (matvec A (zeros k))"
  then have i: "i < n" using A by (simp add: is_mat_def)
  then show "matvec A (zeros k) ! i = zeros n ! i"
    using A is_mat_row [OF A i] by (simp add: matvec_nth is_mat_def zeros_def dot_sum [of _ k])
qed

subsection \<open>Column prefixes\<close>

lemma dot_append:
  fixes a1 a2 b1 b2 :: "real list"
  shows "length a1 = length b1 \<Longrightarrow> dot (a1 @ a2) (b1 @ b2) = dot a1 b1 + dot a2 b2"
  by (simp add: dot_def)

lemma dot_zeros_any [simp]:
  fixes a :: "real list"
  shows "dot a (zeros m) = 0"
proof -
  have "sum_list (map2 (*) a (replicate m 0)) = 0"
  proof (induction a arbitrary: m)
    case Nil
    show ?case by simp
  next
    case (Cons x a)
    show ?case
    proof (cases m)
      case 0
      then show ?thesis by simp
    next
      case (Suc m')
      with Cons show ?thesis by simp
    qed
  qed
  then show ?thesis by (simp add: dot_def zeros_def)
qed

lemma matvec_pad:
  fixes X :: "real list list"
  assumes X: "is_mat n k X" and i: "i \<le> k" and c: "length c = i"
  shows "matvec X (c @ zeros (k - i)) = matvec (cols_upto X i) c"
proof (rule nth_equalityI)
  show "length (matvec X (c @ zeros (k - i))) = length (matvec (cols_upto X i) c)"
    by (simp add: cols_upto_def)
next
  fix a
  assume "a < length (matvec X (c @ zeros (k - i)))"
  then have a: "a < n" using X by (simp add: is_mat_def)
  then have len: "length (X ! a) = k" using X by (simp add: is_mat_def)
  have "dot (X ! a) (c @ zeros (k - i)) = dot (take i (X ! a) @ drop i (X ! a)) (c @ zeros (k - i))"
    by simp
  also have "\<dots> = dot (take i (X ! a)) c + dot (drop i (X ! a)) (zeros (k - i))"
    using len i c by (intro dot_append) simp
  finally have "dot (X ! a) (c @ zeros (k - i)) = dot (take i (X ! a)) c" by simp
  then show "matvec X (c @ zeros (k - i)) ! a = matvec (cols_upto X i) c ! a"
    using a X by (simp add: matvec_nth is_mat_def cols_upto_nth cols_upto_def)
qed

lemma matvec_snoc:
  fixes X :: "real list list"
  assumes X: "is_mat n k X" and i: "i < k" and c: "length c = i"
  shows "matvec (cols_upto X (i + 1)) (c @ [s]) =
           vadd (matvec (cols_upto X i) c) (smult s (col X i))"
proof (rule nth_equalityI)
  show "length (matvec (cols_upto X (i + 1)) (c @ [s])) =
        length (vadd (matvec (cols_upto X i) c) (smult s (col X i)))"
    by (simp add: cols_upto_def vadd_def smult_def)
next
  fix a
  assume "a < length (matvec (cols_upto X (i + 1)) (c @ [s]))"
  then have a: "a < n" using X by (simp add: is_mat_def cols_upto_def)
  then have len: "length (X ! a) = k" using X by (simp add: is_mat_def)
  have "take (i + 1) (X ! a) = take i (X ! a) @ [X ! a ! i]"
    using len i by (simp add: take_Suc_conv_app_nth)
  then have "dot (take (i + 1) (X ! a)) (c @ [s]) = dot (take i (X ! a)) c + dot [X ! a ! i] [s]"
    using len i c by (simp add: dot_append)
  then have "dot (take (i + 1) (X ! a)) (c @ [s]) = dot (take i (X ! a)) c + s * X ! a ! i"
    by (simp add: dot_def)
  then show "matvec (cols_upto X (i + 1)) (c @ [s]) ! a =
             vadd (matvec (cols_upto X i) c) (smult s (col X i)) ! a"
    using a X
    by (simp add: matvec_nth is_mat_def cols_upto_nth cols_upto_def vadd_def smult_def col_nth)
qed

lemma matvec_cols_upto_0:
  fixes X :: "real list list"
  shows "matvec (cols_upto X 0) [] = zeros (length X)"
  by (simp add: matvec_def cols_upto_def dot_def zeros_def map_replicate_const)

lemma lin_indep_prefix:
  assumes X: "is_mat n k X" and ind: "lin_indep_cols k X" and i: "i \<le> k"
  shows "lin_indep_cols i (cols_upto X i)"
  unfolding lin_indep_cols_def
proof (intro allI impI)
  fix c
  assume "length c = i \<and> matvec (cols_upto X i) c = zeros (length (cols_upto X i))"
  then have c: "length c = i" and z: "matvec (cols_upto X i) c = zeros (length X)"
    by (simp_all add: cols_upto_def)
  have "matvec X (c @ zeros (k - i)) = zeros (length X)"
    using matvec_pad [OF X i c] z by simp
  moreover have "length (c @ zeros (k - i)) = k" using c i by (simp add: zeros_def)
  ultimately have "c @ zeros (k - i) = zeros k"
    using ind by (simp add: lin_indep_cols_def)
  then have "take i (c @ zeros (k - i)) = take i (zeros k)" by simp
  then show "c = zeros i" using c i by (simp add: zeros_def min_def)
qed

lemma lin_indep_rows_exist:
  assumes "is_mat n k X" and "lin_indep_cols k X" and "0 < k"
  shows "0 < n"
proof (rule ccontr)
  assume "\<not> 0 < n"
  then have "X = []" using assms(1) by (simp add: is_mat_def)
  then have "matvec X (replicate k 1) = zeros (length X)"
    by (simp add: matvec_def zeros_def)
  then have "replicate k (1::real) = zeros k"
    using assms(2) by (simp add: lin_indep_cols_def)
  then have "replicate k (1::real) ! 0 = zeros k ! 0" by simp
  then show False using assms(3) by (simp add: zeros_def)
qed

subsection \<open>The Gram matrix of independent columns is nonsingular\<close>

lemma gram_nonsingular:
  assumes Z: "is_mat n i Z" and n: "0 < n" and ind: "lin_indep_cols i Z" and i: "0 < i"
  shows "nonsingular (matmul (transpose_np Z) Z)"
  unfolding nonsingular_def
proof (intro allI impI)
  let ?G = "matmul (transpose_np Z) Z"
  have T: "is_mat i n (transpose_np Z)" by (rule is_mat_transpose [OF Z n])
  have G: "is_mat i i ?G" by (rule is_mat_matmul [OF T Z n])
  then have lenG: "length ?G = i" by (simp add: is_mat_def)
  fix c
  assume "length c = length ?G \<and> matvec ?G c = zeros (length ?G)"
  then have c: "length c = i" and z: "matvec ?G c = zeros i" using lenG by simp_all
  have "matvec (transpose_np Z) (matvec Z c) = zeros i"
    using matvec_matmul [OF T Z n c] z by simp
  then have "dot c (matvec (transpose_np Z) (matvec Z c)) = 0"
    using c by simp
  moreover have "dot (matvec Z c) (matvec Z c) = dot c (matvec (transpose_np Z) (matvec Z c))"
    using Z by (intro dot_matvec_adjoint [OF Z n c]) (simp add: is_mat_def)
  ultimately have "dot (matvec Z c) (matvec Z c) = 0" by simp
  then have "matvec Z c = zeros n"
    using Z by (subst (asm) dot_self_zero [of _ n]) (simp_all add: is_mat_def)
  then show "c = zeros (length ?G)"
    using ind c Z lenG by (simp add: lin_indep_cols_def is_mat_def)
qed

subsection \<open>The projected column\<close>

lemma residual_form:
  assumes Z: "is_mat n i Z" and n: "0 < n" and i: "0 < i" and B: "is_mat i i B"
    and x: "length x = n"
  shows "matvec (mat_sub (eye n) (matmul (matmul Z B) (transpose_np Z))) x =
           vsub x (matvec Z (matvec B (matvec (transpose_np Z) x)))"
proof -
  have T: "is_mat i n (transpose_np Z)" by (rule is_mat_transpose [OF Z n])
  have ZB: "is_mat n i (matmul Z B)" by (rule is_mat_matmul [OF Z B i])
  have P: "is_mat n n (matmul (matmul Z B) (transpose_np Z))" by (rule is_mat_matmul [OF ZB T i])
  have lenTx: "length (matvec (transpose_np Z) x) = i" using T by (simp add: is_mat_def)
  have "matvec (mat_sub (eye n) (matmul (matmul Z B) (transpose_np Z))) x =
        vsub (matvec (eye n) x) (matvec (matmul (matmul Z B) (transpose_np Z)) x)"
    by (rule matvec_mat_sub [OF is_mat_eye P x])
  also have "matvec (eye n) x = x" by (rule matvec_eye [OF x])
  also have "matvec (matmul (matmul Z B) (transpose_np Z)) x =
             matvec (matmul Z B) (matvec (transpose_np Z) x)"
    by (rule matvec_matmul [OF ZB T i x])
  also have "\<dots> = matvec Z (matvec B (matvec (transpose_np Z) x))"
    by (rule matvec_matmul [OF Z B i lenTx])
  finally show ?thesis .
qed

lemma vsub_self:
  "length a = m \<Longrightarrow> vsub a a = zeros m"
  by (intro nth_equalityI) (simp_all add: vsub_def zeros_def)

lemma vsub_zeros:
  "length a = m \<Longrightarrow> vsub a (zeros m) = a"
  by (intro nth_equalityI) (simp_all add: vsub_def zeros_def)

lemma residual_orthogonal:
  assumes Z: "is_mat n i Z" and n: "0 < n" and i: "0 < i" and B: "is_mat i i B"
    and x: "length x = n"
    and inv: "matmul (matmul (transpose_np Z) Z) B = eye i"
  shows "matvec (transpose_np Z) (vsub x (matvec Z (matvec B (matvec (transpose_np Z) x)))) =
           zeros i"
proof -
  let ?T = "transpose_np Z"
  let ?w = "matvec ?T x"
  have T: "is_mat i n ?T" by (rule is_mat_transpose [OF Z n])
  have G: "is_mat i i (matmul ?T Z)" by (rule is_mat_matmul [OF T Z n])
  have lenw: "length ?w = i" using T by (simp add: is_mat_def)
  have lenBw: "length (matvec B ?w) = i" using B by (simp add: is_mat_def)
  have lenZ: "length (matvec Z (matvec B ?w)) = n" using Z by (simp add: is_mat_def)
  have "matvec ?T (vsub x (matvec Z (matvec B ?w))) =
        vsub ?w (matvec ?T (matvec Z (matvec B ?w)))"
    by (rule matvec_vsub [OF T x lenZ])
  also have "matvec ?T (matvec Z (matvec B ?w)) = matvec (matmul ?T Z) (matvec B ?w)"
    by (rule matvec_matmul [OF T Z n lenBw, symmetric])
  also have "\<dots> = matvec (matmul (matmul ?T Z) B) ?w"
    by (rule matvec_matmul [OF G B i lenw, symmetric])
  also have "\<dots> = ?w" unfolding inv by (rule matvec_eye [OF lenw])
  also have "vsub ?w ?w = zeros i" by (rule vsub_self [OF lenw])
  finally show ?thesis .
qed

subsection \<open>The Gram matrix of independent columns has an inverse\<close>

lemma matvec_unit:
  fixes A :: "real list list"
  assumes A: "is_mat n k A" and j: "j < k"
  shows "matvec A (eye k ! j) = col A j"
proof (rule nth_equalityI)
  show "length (matvec A (eye k ! j)) = length (col A j)" by simp
next
  fix a
  assume "a < length (matvec A (eye k ! j))"
  then have a: "a < n" using A by (simp add: is_mat_def)
  have "matvec A (eye k ! j) ! a = dot (A ! a) (eye k ! j)"
    using a A by (simp add: matvec_nth is_mat_def)
  also have "\<dots> = (\<Sum>l<k. A ! a ! l * eye k ! j ! l)"
    using is_mat_row [OF A a] j by (intro dot_sum) (simp_all add: eye_def)
  also have "\<dots> = (\<Sum>l<k. if l = j then A ! a ! l else 0)"
    using j by (intro sum.cong) (auto simp: eye_nth)
  also have "\<dots> = A ! a ! j" using j by simp
  finally show "matvec A (eye k ! j) ! a = col A j ! a"
    using a A by (simp add: col_nth is_mat_def)
qed

lemma col_outside_prefix_span:
  assumes X: "is_mat n k X" and j: "j < k" and ind: "lin_indep_cols k X" and c: "length c = j"
  shows "vsub (col X j) (matvec (cols_upto X j) c) \<noteq> zeros n"
proof
  assume z: "vsub (col X j) (matvec (cols_upto X j) c) = zeros n"
  let ?Zc = "matvec (cols_upto X j) c"
  have lenZc: "length ?Zc = n" using X by (simp add: cols_upto_def is_mat_def)
  have lenx: "length (col X j) = n" using X by (simp add: is_mat_def)
  have "vadd ?Zc (smult (- 1) (col X j)) = zeros n"
  proof (rule nth_equalityI)
    show "length (vadd ?Zc (smult (- 1) (col X j))) = length (zeros n)"
      using lenZc lenx by (simp add: vadd_def smult_def zeros_def)
  next
    fix a
    assume "a < length (vadd ?Zc (smult (- 1) (col X j)))"
    then have a: "a < n" using lenZc lenx by (simp add: vadd_def smult_def)
    from z have "vsub (col X j) ?Zc ! a = zeros n ! a" by simp
    then have "col X j ! a - ?Zc ! a = 0"
      using a lenZc lenx by (simp add: vsub_def zeros_def)
    then show "vadd ?Zc (smult (- 1) (col X j)) ! a = zeros n ! a"
      using a lenZc lenx by (simp add: vadd_def smult_def zeros_def)
  qed
  then have "matvec (cols_upto X (j + 1)) (c @ [- 1]) = zeros n"
    using matvec_snoc [OF X j c, of "- 1"] by simp
  moreover have "lin_indep_cols (j + 1) (cols_upto X (j + 1))"
    using j by (intro lin_indep_prefix [OF X ind]) simp
  ultimately have "c @ [- 1] = zeros (j + 1)"
    using c X by (simp add: lin_indep_cols_def cols_upto_def is_mat_def)
  then have "(c @ [- 1]) ! j = zeros (j + 1) ! j" by simp
  moreover have "zeros (j + 1) ! j = 0" unfolding zeros_def by (rule nth_replicate) simp
  moreover have "(c @ [- 1]) ! j = - 1" using c by (simp add: nth_append)
  ultimately show False by simp
qed

text \<open>The entries of the Gram matrix are the inner products of the columns.\<close>

lemma is_mat_gram_upto:
  assumes X: "is_mat n k X" and n: "0 < n" and i: "i \<le> k"
  shows "is_mat i i (gram_upto X i)"
proof -
  have Z: "is_mat n i (cols_upto X i)" by (rule is_mat_cols_upto [OF X i])
  have T: "is_mat i n (transpose_np (cols_upto X i))" by (rule is_mat_transpose [OF Z n])
  show ?thesis unfolding gram_upto_def by (rule is_mat_matmul [OF T Z n])
qed

lemma gram_upto_nth:
  assumes X: "is_mat n k X" and n: "0 < n" and i: "i \<le> k" and a: "a < i" and b: "b < i"
  shows "gram_upto X i ! a ! b = dot (col X a) (col X b)"
proof -
  have Z: "is_mat n i (cols_upto X i)" by (rule is_mat_cols_upto [OF X i])
  have T: "is_mat i n (transpose_np (cols_upto X i))" by (rule is_mat_transpose [OF Z n])
  have "gram_upto X i ! a ! b = dot (transpose_np (cols_upto X i) ! a) (col (cols_upto X i) b)"
    unfolding gram_upto_def by (rule matmul_nth [OF T Z n a b])
  then show ?thesis
    using a b by (simp add: transpose_nth [OF Z n a] col_cols_upto)
qed

lemma gram_upto_apply:
  assumes X: "is_mat n k X" and n: "0 < n" and i: "i \<le> k" and c: "length c = i"
  shows "matvec (gram_upto X i) c =
           matvec (transpose_np (cols_upto X i)) (matvec (cols_upto X i) c)"
proof -
  have Z: "is_mat n i (cols_upto X i)" by (rule is_mat_cols_upto [OF X i])
  have T: "is_mat i n (transpose_np (cols_upto X i))" by (rule is_mat_transpose [OF Z n])
  show ?thesis unfolding gram_upto_def by (rule matvec_matmul [OF T Z n c])
qed

text \<open>
  The inner products of the first \<open>i\<close> columns with the vector \<open>v\<close>, that is
  \<open>Z.T @ v\<close> for the matrix \<open>Z\<close> of these columns.
\<close>

lemma transpose_cols_upto_apply:
  assumes X: "is_mat n k X" and n: "0 < n" and i: "i \<le> k"
  shows "matvec (transpose_np (cols_upto X i)) v = map (\<lambda>a. dot (col X a) v) [0..<i]"
proof (rule nth_equalityI)
  have Z: "is_mat n i (cols_upto X i)" by (rule is_mat_cols_upto [OF X i])
  have T: "is_mat i n (transpose_np (cols_upto X i))" by (rule is_mat_transpose [OF Z n])
  show "length (matvec (transpose_np (cols_upto X i)) v) =
        length (map (\<lambda>a. dot (col X a) v) [0..<i])"
    using T by (simp add: is_mat_def)
  fix a
  assume "a < length (matvec (transpose_np (cols_upto X i)) v)"
  then have a: "a < i" using T by (simp add: is_mat_def)
  have "matvec (transpose_np (cols_upto X i)) v ! a = dot (col (cols_upto X i) a) v"
    by (rule matvec_transpose_nth [OF Z n a])
  then show "matvec (transpose_np (cols_upto X i)) v ! a =
             map (\<lambda>a. dot (col X a) v) [0..<i] ! a"
    using a by (simp add: col_cols_upto)
qed

text \<open>Every right-hand side is reached: by induction on the number of columns.\<close>

lemma gram_upto_onto_aux:
  assumes X: "is_mat n k X" and n: "0 < n" and ind: "lin_indep_cols k X"
  shows "i \<le> k \<Longrightarrow> length w = i \<Longrightarrow>
         \<exists>c. length c = i \<and> (\<forall>a<i. dot (col X a) (matvec (cols_upto X i) c) = w ! a)"
proof (induction i arbitrary: w)
  case 0
  then show ?case by simp
next
  case (Suc i)
  from Suc.prems have i: "i < k" and ik: "i \<le> k" by simp_all
  from Suc.prems(2) obtain w0 \<omega> where w: "w = w0 @ [\<omega>]" "length w0 = i"
    by (cases w rule: rev_cases) auto
  let ?Z = "cols_upto X i"
  let ?x = "col X i"
  let ?g = "map (\<lambda>a. dot (col X a) ?x) [0..<i]"
  have Z: "is_mat n i ?Z" by (rule is_mat_cols_upto [OF X ik])
  have lenx: "length ?x = n" using X by (simp add: is_mat_def)
  have lencol: "length (col X a) = n" for a using X by (simp add: is_mat_def)
  from Suc.IH [OF ik, of ?g] obtain c where c: "length c = i"
    "\<forall>a<i. dot (col X a) (matvec ?Z c) = dot (col X a) ?x"
    by auto
  from Suc.IH [OF ik w(2)] obtain b0 where b0: "length b0 = i"
    "\<forall>a<i. dot (col X a) (matvec ?Z b0) = w0 ! a"
    by auto
  let ?Zc = "matvec ?Z c"
  let ?Zb = "matvec ?Z b0"
  let ?u = "vsub ?x ?Zc"
  have lenZc: "length ?Zc = n" and lenZb: "length ?Zb = n" using Z by (simp_all add: is_mat_def)
  have lenu: "length ?u = n" using lenx lenZc by (simp add: vsub_def)
  have orth: "dot (col X a) ?u = 0" if "a < i" for a
    using dot_vsub_right [OF lenx lenZc lencol, of a] c(2) that by simp
  have Tu: "matvec (transpose_np ?Z) ?u = zeros i"
    unfolding transpose_cols_upto_apply [OF X n ik]
    using orth by (intro nth_equalityI) (simp_all add: zeros_def)
  have "dot ?Zc ?u = dot c (matvec (transpose_np ?Z) ?u)"
    by (rule dot_matvec_adjoint [OF Z n c(1) lenu])
  then have Zcu: "dot ?Zc ?u = 0" using Tu c(1) by simp
  have "dot ?u ?u = dot ?x ?u - dot ?Zc ?u"
    by (rule dot_vsub_left [OF lenx lenZc lenu])
  then have xu: "dot ?x ?u = dot ?u ?u" using Zcu by simp
  have "?u \<noteq> zeros n" by (rule col_outside_prefix_span [OF X i ind c(1)])
  then have uu: "dot ?u ?u \<noteq> 0" using dot_self_zero [OF lenu] by simp
  define \<beta> where "\<beta> = (\<omega> - dot ?x ?Zb) / dot ?u ?u"
  define b where "b = vsub b0 (smult \<beta> c)"
  have lenb: "length b = i" using b0(1) c(1) by (simp add: b_def vsub_def smult_def)
  let ?v = "vadd ?Zb (smult \<beta> ?u)"
  have v: "matvec (cols_upto X (Suc i)) (b @ [\<beta>]) = ?v"
  proof -
    have "matvec (cols_upto X (i + 1)) (b @ [\<beta>]) = vadd (matvec ?Z b) (smult \<beta> ?x)"
      by (rule matvec_snoc [OF X i lenb])
    also have "matvec ?Z b = vsub ?Zb (smult \<beta> ?Zc)"
      unfolding b_def
      using matvec_vsub [OF Z b0(1), of "smult \<beta> c"] matvec_smult [OF Z c(1), of \<beta>] c(1)
      by (simp add: smult_def)
    also have "vadd (vsub ?Zb (smult \<beta> ?Zc)) (smult \<beta> ?x) = ?v"
      using lenx lenZc lenZb
      by (intro nth_equalityI) (simp_all add: vadd_def vsub_def smult_def algebra_simps)
    finally show ?thesis by simp
  qed
  have lensu: "length (smult \<beta> ?u) = n" using lenu by (simp add: smult_def)
  have dv: "dot (col X a) ?v = dot (col X a) ?Zb + \<beta> * dot (col X a) ?u" for a
    using dot_vadd_right [OF lenZb lensu lencol, of a] dot_smult_right [OF lenu lencol, of a \<beta>]
    by simp
  have "dot (col X a) ?v = w ! a" if a: "a < Suc i" for a
  proof (cases "a = i")
    case True
    have "dot ?x ?v = dot ?x ?Zb + \<beta> * dot ?u ?u" using dv [of i] xu by simp
    also have "\<dots> = \<omega>" using uu by (simp add: \<beta>_def)
    finally show ?thesis using True w by (simp add: nth_append)
  next
    case False
    with a have ai: "a < i" by simp
    then have "dot (col X a) ?v = w0 ! a" using dv [of a] orth b0(2) by simp
    then show ?thesis using ai w by (simp add: nth_append)
  qed
  then have "\<forall>a<Suc i. dot (col X a) (matvec (cols_upto X (Suc i)) (b @ [\<beta>])) = w ! a"
    unfolding v by simp
  moreover have "length (b @ [\<beta>]) = Suc i" using lenb by simp
  ultimately show ?case by blast
qed

lemma gram_upto_onto:
  assumes X: "is_mat n k X" and n: "0 < n" and ind: "lin_indep_cols k X"
    and i: "i \<le> k" and w: "length w = i"
  shows "\<exists>c. length c = i \<and> matvec (gram_upto X i) c = w"
proof -
  from gram_upto_onto_aux [OF X n ind i w] obtain c where c: "length c = i"
    "\<forall>a<i. dot (col X a) (matvec (cols_upto X i) c) = w ! a"
    by blast
  have "matvec (gram_upto X i) c = map (\<lambda>a. dot (col X a) (matvec (cols_upto X i) c)) [0..<i]"
    unfolding gram_upto_apply [OF X n i c(1)] by (rule transpose_cols_upto_apply [OF X n i])
  also have "\<dots> = w"
    using c(2) w by (intro nth_equalityI) simp_all
  finally show ?thesis using c(1) by blast
qed

text \<open>A square matrix that is onto and has a trivial null space has an inverse.\<close>

lemma onto_nonsingular_inverse:
  assumes A: "is_mat m m A" and m: "0 < m"
    and onto: "\<forall>w. length w = m \<longrightarrow> (\<exists>c. length c = m \<and> matvec A c = w)"
    and ns: "nonsingular A"
  shows "\<exists>B. is_inverse A B"
proof -
  have lenA: "length A = m" using A by (simp add: is_mat_def)
  have "\<forall>j. \<exists>c. j < m \<longrightarrow> length c = m \<and> matvec A c = eye m ! j"
    using onto by (simp add: eye_def)
  then obtain f where f: "\<forall>j. j < m \<longrightarrow> length (f j) = m \<and> matvec A (f j) = eye m ! j"
    by (rule choice [THEN exE])
  define B where "B = map (\<lambda>a. map (\<lambda>j. f j ! a) [0..<m]) [0..<m]"
  have B: "is_mat m m B" by (auto simp: B_def is_mat_def)
  have colB: "col B j = f j" if "j < m" for j
    using that f by (intro nth_equalityI) (simp_all add: col_def B_def)
  have AB: "matmul A B = eye m"
  proof (rule nth_equalityI)
    show "length (matmul A B) = length (eye m)"
      using is_mat_matmul [OF A B m] by (simp add: is_mat_def eye_def)
  next
    fix a
    assume "a < length (matmul A B)"
    then have a: "a < m" using is_mat_matmul [OF A B m] by (simp add: is_mat_def)
    show "matmul A B ! a = eye m ! a"
    proof (rule nth_equalityI)
      show "length (matmul A B ! a) = length (eye m ! a)"
        using is_mat_row [OF is_mat_matmul [OF A B m] a] a by (simp add: eye_def)
    next
      fix j
      assume "j < length (matmul A B ! a)"
      then have j: "j < m" using is_mat_row [OF is_mat_matmul [OF A B m] a] by simp
      have "matmul A B ! a ! j = dot (A ! a) (col B j)"
        by (rule matmul_nth [OF A B m a j])
      also have "\<dots> = matvec A (f j) ! a"
        using a lenA by (simp add: colB [OF j] matvec_nth)
      also have "\<dots> = eye m ! j ! a" using f j by simp
      also have "\<dots> = eye m ! a ! j" using a j by (auto simp: eye_nth)
      finally show "matmul A B ! a ! j = eye m ! a ! j" .
    qed
  qed
  have left: "matvec B (matvec A c) = c" if c: "length c = m" for c
  proof -
    let ?d = "vsub (matvec B (matvec A c)) c"
    have lenAc: "length (matvec A c) = m" using lenA by simp
    have lenBAc: "length (matvec B (matvec A c)) = m" using B by (simp add: is_mat_def)
    have "matvec A (matvec B (matvec A c)) = matvec (matmul A B) (matvec A c)"
      by (rule matvec_matmul [OF A B m lenAc, symmetric])
    also have "\<dots> = matvec A c" unfolding AB by (rule matvec_eye [OF lenAc])
    finally have "matvec A ?d = vsub (matvec A c) (matvec A c)"
      using matvec_vsub [OF A lenBAc c] by simp
    then have "matvec A ?d = zeros m" using vsub_self [OF lenAc] by simp
    moreover have "length ?d = m" using lenBAc c by (simp add: vsub_def)
    ultimately have dz: "?d = zeros m" using ns lenA by (simp add: nonsingular_def)
    show ?thesis
    proof (rule nth_equalityI)
      show "length (matvec B (matvec A c)) = length c" using lenBAc c by simp
    next
      fix a
      assume "a < length (matvec B (matvec A c))"
      then have a: "a < m" using lenBAc by simp
      have "?d ! a = zeros m ! a" using dz by simp
      then show "matvec B (matvec A c) ! a = c ! a"
        using a lenBAc c by (simp add: vsub_def zeros_def)
    qed
  qed
  have BA: "matmul B A = eye m"
  proof (rule nth_equalityI)
    show "length (matmul B A) = length (eye m)"
      using is_mat_matmul [OF B A m] by (simp add: is_mat_def eye_def)
  next
    fix a
    assume "a < length (matmul B A)"
    then have a: "a < m" using is_mat_matmul [OF B A m] by (simp add: is_mat_def)
    show "matmul B A ! a = eye m ! a"
    proof (rule nth_equalityI)
      show "length (matmul B A ! a) = length (eye m ! a)"
        using is_mat_row [OF is_mat_matmul [OF B A m] a] a by (simp add: eye_def)
    next
      fix j
      assume "j < length (matmul B A ! a)"
      then have j: "j < m" using is_mat_row [OF is_mat_matmul [OF B A m] a] by simp
      have lene: "length (eye m ! j) = m" using j by (simp add: eye_def)
      have "matmul B A ! a ! j = dot (B ! a) (col A j)"
        by (rule matmul_nth [OF B A m a j])
      also have "\<dots> = matvec B (col A j) ! a"
        using a B by (simp add: matvec_nth is_mat_def)
      also have "col A j = matvec A (eye m ! j)"
        by (rule matvec_unit [OF A j, symmetric])
      also have "matvec B (matvec A (eye m ! j)) = eye m ! j"
        by (rule left [OF lene])
      also have "eye m ! j ! a = eye m ! a ! j" using a j by (auto simp: eye_nth)
      finally show "matmul B A ! a ! j = eye m ! a ! j" .
    qed
  qed
  from B AB BA show ?thesis unfolding is_inverse_def lenA by blast
qed

lemma gram_invertible:
  assumes Z: "is_mat n i Z" and n: "0 < n" and ind: "lin_indep_cols i Z" and i: "0 < i"
  shows "\<exists>B. is_inverse (matmul (transpose_np Z) Z) B"
proof -
  have g: "gram_upto Z i = matmul (transpose_np Z) Z"
    by (simp add: gram_upto_def cols_upto_def is_mat_def map_idI Z [unfolded is_mat_def])
  have G: "is_mat i i (gram_upto Z i)" by (rule is_mat_gram_upto [OF Z n le_refl])
  have onto: "\<forall>w. length w = i \<longrightarrow> (\<exists>c. length c = i \<and> matvec (gram_upto Z i) c = w)"
    using gram_upto_onto [OF Z n ind le_refl] by blast
  have ns: "nonsingular (gram_upto Z i)"
    unfolding g by (rule gram_nonsingular [OF Z n ind i])
  from onto_nonsingular_inverse [OF G i onto ns] show ?thesis unfolding g .
qed

subsection \<open>The residual vectors\<close>

lemma gs_resid_step_prefix:
  assumes X: "is_mat n k X" and n: "0 < n" and j: "0 < j" "j < k"
    and indZ: "lin_indep_cols j (cols_upto X j)"
    and inv: "inverts linalg_inv (gram_upto X j)"
  shows "\<exists>G c. linalg_inv (gram_upto X j) = Inr G \<and> is_mat j j G \<and> length c = j \<and>
           gs_resid linalg_inv X j = vsub (col X j) (matvec (cols_upto X j) c) \<and>
           matvec (transpose_np (cols_upto X j)) (gs_resid linalg_inv X j) = zeros j"
proof -
  let ?Z = "cols_upto X j"
  let ?T = "transpose_np ?Z"
  have Z: "is_mat n j ?Z" using j by (intro is_mat_cols_upto [OF X]) simp
  have T: "is_mat j n ?T" by (rule is_mat_transpose [OF Z n])
  have "\<exists>B. is_inverse (gram_upto X j) B"
    unfolding gram_upto_def by (rule gram_invertible [OF Z n indZ j(1)])
  moreover have lenG: "length (gram_upto X j) = j"
    using is_mat_matmul [OF T Z n] by (simp add: gram_upto_def is_mat_def)
  ultimately obtain G where G: "linalg_inv (gram_upto X j) = Inr G" "is_mat j j G"
      "matmul (gram_upto X j) G = eye j"
    using inv by (auto simp: inverts_def is_inverse_def)
  have x: "length (col X j) = n" using X by (simp add: is_mat_def)
  let ?c = "matvec G (matvec ?T (col X j))"
  have lenc: "length ?c = j" using G(2) by (simp add: is_mat_def)
  have "gs_resid linalg_inv X j =
        matvec (mat_sub (eye n) (matmul (matmul ?Z G) ?T)) (col X j)"
    using j(1) G(1) X by (simp add: gs_resid_def is_mat_def)
  also have "\<dots> = vsub (col X j) (matvec ?Z ?c)"
    by (rule residual_form [OF Z n j(1) G(2) x])
  finally have form: "gs_resid linalg_inv X j = vsub (col X j) (matvec ?Z ?c)" .
  have "matvec ?T (vsub (col X j) (matvec ?Z ?c)) = zeros j"
    using G(3) by (intro residual_orthogonal [OF Z n j(1) G(2) x]) (simp add: gram_upto_def)
  with form have "matvec ?T (gs_resid linalg_inv X j) = zeros j" by simp
  with G(1,2) lenc form show ?thesis by blast
qed

lemma gs_resid_step:
  assumes X: "is_mat n k X" and n: "0 < n" and j: "0 < j" "j < k"
    and ind: "lin_indep_cols k X"
    and inv: "inverts linalg_inv (gram_upto X j)"
  shows "\<exists>G c. linalg_inv (gram_upto X j) = Inr G \<and> is_mat j j G \<and> length c = j \<and>
           gs_resid linalg_inv X j = vsub (col X j) (matvec (cols_upto X j) c) \<and>
           matvec (transpose_np (cols_upto X j)) (gs_resid linalg_inv X j) = zeros j"
proof -
  have "lin_indep_cols j (cols_upto X j)"
    using j by (intro lin_indep_prefix [OF X ind]) simp
  then show ?thesis by (rule gs_resid_step_prefix [OF X n j _ inv])
qed

lemma gs_resid_form:
  assumes X: "is_mat n k X" and n: "0 < n" and j: "j < k"
    and ind: "lin_indep_cols k X"
    and inv: "\<forall>i. 0 < i \<and> i < k \<longrightarrow> inverts linalg_inv (gram_upto X i)"
  shows "\<exists>c. length c = j \<and>
           gs_resid linalg_inv X j = vsub (col X j) (matvec (cols_upto X j) c)"
proof (cases "j = 0")
  case True
  have "vsub (col X 0) (zeros (length X)) = col X 0"
    by (rule vsub_zeros) simp
  then have "gs_resid linalg_inv X 0 = vsub (col X 0) (matvec (cols_upto X 0) [])"
    by (simp add: gs_resid_def matvec_cols_upto_0)
  with True show ?thesis by auto
next
  case False
  then have "0 < j" by simp
  from gs_resid_step [OF X n this j ind] inv j this show ?thesis by blast
qed

lemma gs_resid_length:
  assumes X: "is_mat n k X" and n: "0 < n" and j: "j < k"
    and ind: "lin_indep_cols k X"
    and inv: "\<forall>i. 0 < i \<and> i < k \<longrightarrow> inverts linalg_inv (gram_upto X i)"
  shows "length (gs_resid linalg_inv X j) = n"
proof -
  from gs_resid_form [OF assms] obtain c where
    "gs_resid linalg_inv X j = vsub (col X j) (matvec (cols_upto X j) c)" by blast
  then show ?thesis using X by (simp add: vsub_def cols_upto_def is_mat_def)
qed

lemma gs_resid_orthogonal_cols:
  assumes X: "is_mat n k X" and n: "0 < n" and j: "j < k"
    and ind: "lin_indep_cols k X"
    and inv: "\<forall>i. 0 < i \<and> i < k \<longrightarrow> inverts linalg_inv (gram_upto X i)"
    and l: "l < j"
  shows "dot (col X l) (gs_resid linalg_inv X j) = 0"
proof -
  from l have j0: "0 < j" by simp
  from gs_resid_step [OF X n j0 j ind] inv j j0 have
    z: "matvec (transpose_np (cols_upto X j)) (gs_resid linalg_inv X j) = zeros j" by blast
  have Z: "is_mat n j (cols_upto X j)" using j by (intro is_mat_cols_upto [OF X]) simp
  have "matvec (transpose_np (cols_upto X j)) (gs_resid linalg_inv X j) ! l =
        dot (col (cols_upto X j) l) (gs_resid linalg_inv X j)"
    by (rule matvec_transpose_nth [OF Z n l])
  then show ?thesis using z l by (simp add: col_cols_upto zeros_def)
qed

lemma gs_resid_nonzero:
  assumes X: "is_mat n k X" and n: "0 < n" and j: "j < k"
    and ind: "lin_indep_cols k X"
    and inv: "\<forall>i. 0 < i \<and> i < k \<longrightarrow> inverts linalg_inv (gram_upto X i)"
  shows "gs_resid linalg_inv X j \<noteq> zeros n"
proof -
  from gs_resid_form [OF assms] obtain c where c: "length c = j"
    "gs_resid linalg_inv X j = vsub (col X j) (matvec (cols_upto X j) c)" by blast
  show ?thesis unfolding c(2) by (rule col_outside_prefix_span [OF X j ind c(1)])
qed

lemma gs_resid_orthogonal:
  assumes X: "is_mat n k X" and n: "0 < n" and j: "j < k"
    and ind: "lin_indep_cols k X"
    and inv: "\<forall>i. 0 < i \<and> i < k \<longrightarrow> inverts linalg_inv (gram_upto X i)"
    and l: "l < j"
  shows "dot (gs_resid linalg_inv X l) (gs_resid linalg_inv X j) = 0"
proof -
  let ?u = "gs_resid linalg_inv X j"
  from l j have lk: "l < k" by simp
  from gs_resid_form [OF X n lk ind inv] obtain c where c: "length c = l"
    "gs_resid linalg_inv X l = vsub (col X l) (matvec (cols_upto X l) c)" by blast
  have lenu: "length ?u = n" by (rule gs_resid_length [OF X n j ind inv])
  have Z: "is_mat n l (cols_upto X l)" using lk by (intro is_mat_cols_upto [OF X]) simp
  have lenZc: "length (matvec (cols_upto X l) c) = n" using Z by (simp add: is_mat_def)
  have lenx: "length (col X l) = n" using X by (simp add: is_mat_def)
  have T: "is_mat l n (transpose_np (cols_upto X l))" by (rule is_mat_transpose [OF Z n])
  have "matvec (transpose_np (cols_upto X l)) ?u = zeros l"
  proof (rule nth_equalityI)
    show "length (matvec (transpose_np (cols_upto X l)) ?u) = length (zeros l)"
      using T by (simp add: is_mat_def zeros_def)
  next
    fix a
    assume "a < length (matvec (transpose_np (cols_upto X l)) ?u)"
    then have a: "a < l" using T by (simp add: is_mat_def)
    have "matvec (transpose_np (cols_upto X l)) ?u ! a = dot (col (cols_upto X l) a) ?u"
      by (rule matvec_transpose_nth [OF Z n a])
    also have "\<dots> = dot (col X a) ?u" using a by (simp add: col_cols_upto)
    also have "\<dots> = 0"
      using a l by (intro gs_resid_orthogonal_cols [OF X n j ind inv]) simp
    finally show "matvec (transpose_np (cols_upto X l)) ?u ! a = zeros l ! a"
      using a by (simp add: zeros_def)
  qed
  then have "dot (matvec (cols_upto X l) c) ?u = 0"
    using dot_matvec_adjoint [OF Z n c(1) lenu] c(1) by simp
  moreover have "dot (col X l) ?u = 0"
    by (rule gs_resid_orthogonal_cols [OF X n j ind inv l])
  ultimately show ?thesis
    using dot_vsub_left [OF lenx lenZc lenu] c(2) by simp
qed

subsection \<open>The normalised vectors are orthonormal\<close>

lemma gs_unit_smult:
  "gs_unit linalg_inv X j = smult (1 / norm2 (gs_resid linalg_inv X j)) (gs_resid linalg_inv X j)"
  by (simp add: gs_unit_def smult_def)

lemma dot_smult_both:
  fixes u v :: "real list"
  assumes "length u = m" "length v = m"
  shows "dot (smult a u) (smult b v) = a * b * dot u v"
proof -
  have "dot (smult a u) (smult b v) = b * dot (smult a u) v"
    using assms by (intro dot_smult_right) (simp_all add: smult_def)
  also have "dot (smult a u) v = dot v (smult a u)"
    using assms by (intro dot_commute) (simp add: smult_def)
  also have "\<dots> = a * dot v u"
    using assms by (intro dot_smult_right) simp_all
  also have "dot v u = dot u v"
    using assms by (intro dot_commute) simp
  finally show ?thesis by simp
qed

lemma gs_unit_length:
  assumes X: "is_mat n k X" and n: "0 < n" and j: "j < k"
    and ind: "lin_indep_cols k X"
    and inv: "\<forall>i. 0 < i \<and> i < k \<longrightarrow> inverts linalg_inv (gram_upto X i)"
  shows "length (gs_unit linalg_inv X j) = n"
  using gs_resid_length [OF assms] by (simp add: gs_unit_def)

lemma gs_norm_nonzero:
  assumes X: "is_mat n k X" and n: "0 < n" and j: "j < k"
    and ind: "lin_indep_cols k X"
    and inv: "\<forall>i. 0 < i \<and> i < k \<longrightarrow> inverts linalg_inv (gram_upto X i)"
  shows "norm2 (gs_resid linalg_inv X j) \<noteq> 0"
  using gs_resid_nonzero [OF assms] norm2_zero_iff [OF gs_resid_length [OF assms]] by simp

lemma gs_unit_orthonormal:
  assumes X: "is_mat n k X" and n: "0 < n" and a: "a < k" and b: "b < k"
    and ind: "lin_indep_cols k X"
    and inv: "\<forall>i. 0 < i \<and> i < k \<longrightarrow> inverts linalg_inv (gram_upto X i)"
  shows "dot (gs_unit linalg_inv X a) (gs_unit linalg_inv X b) = (if a = b then 1 else 0)"
proof -
  let ?u = "gs_resid linalg_inv X"
  have len: "length (?u a) = n" "length (?u b) = n"
    using gs_resid_length [OF X n _ ind inv] a b by simp_all
  have eq: "dot (gs_unit linalg_inv X a) (gs_unit linalg_inv X b) =
        1 / norm2 (?u a) * (1 / norm2 (?u b)) * dot (?u a) (?u b)"
    unfolding gs_unit_smult by (rule dot_smult_both [OF len])
  show ?thesis
  proof (cases "a = b")
    case True
    have nz: "norm2 (?u a) \<noteq> 0" by (rule gs_norm_nonzero [OF X n a ind inv])
    have "norm2 (?u a) * norm2 (?u a) = dot (?u a) (?u a)"
      by (simp add: norm2_dot dot_self_nonneg)
    then have "1 / norm2 (?u a) * (1 / norm2 (?u a)) * dot (?u a) (?u a) =
               1 / norm2 (?u a) * (1 / norm2 (?u a)) * (norm2 (?u a) * norm2 (?u a))"
      by simp
    also have "\<dots> = 1" using nz by simp
    finally have one: "1 / norm2 (?u a) * (1 / norm2 (?u a)) * dot (?u a) (?u a) = 1" .
    have "dot (gs_unit linalg_inv X a) (gs_unit linalg_inv X b) =
          1 / norm2 (?u a) * (1 / norm2 (?u a)) * dot (?u a) (?u a)"
      using eq True by (simp only:)
    also note one
    finally show ?thesis using True by simp
  next
    case False
    have "dot (?u a) (?u b) = 0"
    proof (cases "a < b")
      case True
      then show ?thesis by (rule gs_resid_orthogonal [OF X n b ind inv])
    next
      case False
      with \<open>a \<noteq> b\<close> have "b < a" by simp
      then have "dot (?u b) (?u a) = 0" by (rule gs_resid_orthogonal [OF X n a ind inv])
      then show ?thesis using dot_commute [of "?u a" "?u b"] len by simp
    qed
    with eq False show ?thesis by simp
  qed
qed

subsection \<open>Column assignment\<close>

lemma is_mat_set_col:
  "is_mat n k U \<Longrightarrow> length v = n \<Longrightarrow> is_mat n k (set_col U j v)"
  by (auto simp: is_mat_def set_col_def set_zip)

lemma col_set_col:
  assumes "is_mat n k U" and "length v = n" and "j < k"
  shows "col (set_col U j v) j' = (if j' = j then v else col U j')"
proof (rule nth_equalityI)
  show "length (col (set_col U j v) j') = length (if j' = j then v else col U j')"
    using assms by (simp add: set_col_def is_mat_def)
next
  fix a
  assume "a < length (col (set_col U j v) j')"
  then have a: "a < n" using assms by (simp add: set_col_def is_mat_def)
  then have "length (U ! a) = k" using assms(1) by (simp add: is_mat_def)
  then show "col (set_col U j v) j' ! a = (if j' = j then v else col U j') ! a"
    using a assms by (simp add: col_def set_col_def is_mat_def)
qed

subsection \<open>What the loop returns\<close>

lemma gram_schmidt_loop_result:
  assumes "is_mat n k U" and "length X = n" and "0 < i"
    and "\<forall>j. i \<le> j \<and> j < k \<longrightarrow> (\<exists>G. linalg_inv (gram_upto X j) = Inr G)"
    and "\<forall>j. i \<le> j \<and> j < k \<longrightarrow> length (gs_resid linalg_inv X j) = n"
  shows "\<exists>U'. gram_schmidt_loop linalg_inv X n k i U = Inr U' \<and> is_mat n k U' \<and>
           (\<forall>j<k. col U' j =
              (if j < i then col U j
               else np_divide (gs_resid linalg_inv X j) (norm2 (gs_resid linalg_inv X j))))"
  using assms
proof (induction linalg_inv X n k i U rule: gram_schmidt_loop.induct)
  case (1 linalg_inv X n k i U)
  show ?case
  proof (cases "i < k")
    case False
    then show ?thesis
      using "1.prems"(1) by (subst gram_schmidt_loop.simps) simp
  next
    case True
    let ?Z = "cols_upto X i"
    let ?u = "gs_resid linalg_inv X i"
    let ?U = "set_col U i (np_divide ?u (norm2 ?u))"
    from "1.prems"(4) True obtain G where G: "linalg_inv (gram_upto X i) = Inr G" by auto
    have u: "matvec (mat_sub (eye n) (matmul (matmul ?Z G) (transpose_np ?Z))) (col X i) = ?u"
      using G "1.prems"(2,3) by (simp add: gs_resid_def)
    have lenu: "length (np_divide ?u (norm2 ?u)) = n"
      using "1.prems"(5) True by (simp add: np_divide_def)
    have unf: "gram_schmidt_loop linalg_inv X n k i U =
               gram_schmidt_loop linalg_inv X n k (i + 1) ?U"
      using True G u
      by (subst gram_schmidt_loop.simps) (simp add: gram_upto_def [symmetric] Let_def)
    have U: "is_mat n k ?U" by (rule is_mat_set_col [OF "1.prems"(1) lenu])
    have Geq: "linalg_inv (matmul (transpose_np ?Z) ?Z) = Inr G"
      using G by (simp add: gram_upto_def)
    have later: "0 < i + 1"
      "\<forall>j. i + 1 \<le> j \<and> j < k \<longrightarrow> (\<exists>G. linalg_inv (gram_upto X j) = Inr G)"
      "\<forall>j. i + 1 \<le> j \<and> j < k \<longrightarrow> length (gs_resid linalg_inv X j) = n"
      using "1.prems"(4,5) by simp_all
    note ih = "1.IH" [OF True refl refl Geq refl refl, unfolded u, OF U "1.prems"(2) later]
    have "\<exists>U'. gram_schmidt_loop linalg_inv X n k (i + 1) ?U = Inr U' \<and> is_mat n k U' \<and>
           (\<forall>j<k. col U' j =
              (if j < i + 1 then col ?U j
               else np_divide (gs_resid linalg_inv X j) (norm2 (gs_resid linalg_inv X j))))"
      by (rule ih)
    then obtain U' where U': "gram_schmidt_loop linalg_inv X n k (i + 1) ?U = Inr U'"
      "is_mat n k U'"
      "\<forall>j<k. col U' j =
              (if j < i + 1 then col ?U j
               else np_divide (gs_resid linalg_inv X j) (norm2 (gs_resid linalg_inv X j)))"
      by blast
    have "col U' j =
              (if j < i then col U j
               else np_divide (gs_resid linalg_inv X j) (norm2 (gs_resid linalg_inv X j)))"
      if "j < k" for j
      using U'(3) that col_set_col [OF "1.prems"(1) lenu True, of j]
      by (auto simp: less_Suc_eq)
    with U'(1,2) unf show ?thesis by simp
  qed
qed

subsection \<open>What gram\_schmidt returns\<close>

lemma np_divide_Fin:
  "s \<noteq> 0 \<Longrightarrow> np_divide v s = map Fin (map (\<lambda>a. a / s) v)"
  by (simp add: np_divide_def)

lemma is_mat_np_empty2: "is_mat n k (np_empty2 n k mem)"
  by (auto simp: is_mat_def np_empty2_def)

lemma is_mat_gs_basis:
  assumes "is_mat n k X" and "0 < n"
  shows "is_mat n k (gs_basis linalg_inv X)"
  using assms by (auto simp: gs_basis_def is_mat_def ncols_mat [OF assms])

lemma col_gs_basis:
  assumes X: "is_mat n k X" and n: "0 < n" and j: "j < k"
    and len: "length (gs_unit linalg_inv X j) = n"
  shows "col (gs_basis linalg_inv X) j = gs_unit linalg_inv X j"
proof (rule nth_equalityI)
  show "length (col (gs_basis linalg_inv X) j) = length (gs_unit linalg_inv X j)"
    using X len by (simp add: gs_basis_def is_mat_def)
next
  fix a
  assume "a < length (col (gs_basis linalg_inv X) j)"
  then have a: "a < n" using X by (simp add: gs_basis_def is_mat_def)
  then show "col (gs_basis linalg_inv X) j ! a = gs_unit linalg_inv X j ! a"
    using X j by (simp add: col_def gs_basis_def ncols_mat [OF X n] is_mat_def)
qed

lemma gram_schmidt_result:
  assumes X: "is_mat n k X" and k: "0 < k"
    and ind: "lin_indep_cols k X"
    and inv: "\<forall>i. 0 < i \<and> i < k \<longrightarrow> inverts linalg_inv (gram_upto X i)"
  shows "gram_schmidt linalg_inv mem X = Inr (map (map Fin) (gs_basis linalg_inv X))"
proof -
  have n: "0 < n" by (rule lin_indep_rows_exist [OF X ind k])
  have lenX: "length X = n" using X by (simp add: is_mat_def)
  have shape: "shape X = (n, k)" by (simp add: shape_def lenX ncols_mat [OF X n])
  let ?u = "gs_resid linalg_inv X"
  let ?v1 = "col X 0"
  let ?U1 = "set_col (np_empty2 n k mem) 0 (np_divide ?v1 (norm2 ?v1))"
  have lenv: "length (np_divide ?v1 (norm2 ?v1)) = n"
    by (simp add: np_divide_def lenX)
  have U1: "is_mat n k ?U1" by (rule is_mat_set_col [OF is_mat_np_empty2 lenv])
  have ex: "\<forall>j. 1 \<le> j \<and> j < k \<longrightarrow> (\<exists>G. linalg_inv (gram_upto X j) = Inr G)"
  proof (intro allI impI)
    fix j assume "1 \<le> j \<and> j < k"
    then have j: "0 < j" "j < k" by simp_all
    from gs_resid_step [OF X n j ind] inv j
    show "\<exists>G. linalg_inv (gram_upto X j) = Inr G" by blast
  qed
  have len: "\<forall>j. 1 \<le> j \<and> j < k \<longrightarrow> length (?u j) = n"
    using gs_resid_length [OF X n _ ind inv] by simp
  from gram_schmidt_loop_result [OF U1 lenX _ ex len]
  obtain U' where U': "gram_schmidt_loop linalg_inv X n k 1 ?U1 = Inr U'" "is_mat n k U'"
    "\<forall>j<k. col U' j = (if j < 1 then col ?U1 j else np_divide (?u j) (norm2 (?u j)))"
    by auto
  have ret: "gram_schmidt linalg_inv mem X = Inr U'"
    using U'(1) k by (simp add: gram_schmidt_def shape)
  have cols: "col U' j = map Fin (gs_unit linalg_inv X j)" if j: "j < k" for j
  proof -
    have nz: "norm2 (?u j) \<noteq> 0" by (rule gs_norm_nonzero [OF X n j ind inv])
    have "col U' j = np_divide (?u j) (norm2 (?u j))"
    proof (cases "j = 0")
      case True
      have "col ?U1 0 = np_divide ?v1 (norm2 ?v1)"
        using col_set_col [OF is_mat_np_empty2 lenv k, of mem 0] by simp
      moreover have "?u 0 = ?v1" by (simp add: gs_resid_def)
      ultimately show ?thesis using U'(3) j True by simp
    next
      case False
      then show ?thesis using U'(3) j by simp
    qed
    then show ?thesis using nz by (simp add: np_divide_Fin gs_unit_def)
  qed
  have B: "is_mat n k (gs_basis linalg_inv X)" by (rule is_mat_gs_basis [OF X n])
  have "U' = map (map Fin) (gs_basis linalg_inv X)"
  proof (rule nth_equalityI)
    show "length U' = length (map (map Fin) (gs_basis linalg_inv X))"
      using U'(2) B by (simp add: is_mat_def)
  next
    fix a
    assume "a < length U'"
    then have a: "a < n" using U'(2) by (simp add: is_mat_def)
    show "U' ! a = map (map Fin) (gs_basis linalg_inv X) ! a"
    proof (rule nth_equalityI)
      show "length (U' ! a) = length (map (map Fin) (gs_basis linalg_inv X) ! a)"
        using a U'(2) B by (simp add: is_mat_def)
    next
      fix j
      assume "j < length (U' ! a)"
      then have j: "j < k" using a U'(2) by (simp add: is_mat_def)
      have lenq: "length (gs_unit linalg_inv X j) = n"
        by (rule gs_unit_length [OF X n j ind inv])
      have "U' ! a ! j = col U' j ! a"
        using a U'(2) by (simp add: col_nth is_mat_def)
      also have "\<dots> = Fin (gs_unit linalg_inv X j ! a)"
        using cols [OF j] a lenq by simp
      also have "gs_unit linalg_inv X j ! a = col (gs_basis linalg_inv X) j ! a"
        by (simp add: col_gs_basis [OF X n j lenq])
      also have "\<dots> = gs_basis linalg_inv X ! a ! j"
        using a B by (simp add: col_nth is_mat_def)
      finally show "U' ! a ! j = map (map Fin) (gs_basis linalg_inv X) ! a ! j"
        using a j B by (simp add: is_mat_def)
    qed
  qed
  with ret show ?thesis by simp
qed

lemma gs_basis_orthonormal:
  assumes X: "is_mat n k X" and k: "0 < k"
    and ind: "lin_indep_cols k X"
    and inv: "\<forall>i. 0 < i \<and> i < k \<longrightarrow> inverts linalg_inv (gram_upto X i)"
  shows "matmul (transpose_np (gs_basis linalg_inv X)) (gs_basis linalg_inv X) = eye k"
proof -
  let ?U = "gs_basis linalg_inv X"
  have n: "0 < n" by (rule lin_indep_rows_exist [OF X ind k])
  have U: "is_mat n k ?U" by (rule is_mat_gs_basis [OF X n])
  have T: "is_mat k n (transpose_np ?U)" by (rule is_mat_transpose [OF U n])
  have P: "is_mat k k (matmul (transpose_np ?U) ?U)" by (rule is_mat_matmul [OF T U n])
  show ?thesis
  proof (rule nth_equalityI)
    show "length (matmul (transpose_np ?U) ?U) = length (eye k)"
      using P by (simp add: is_mat_def eye_def)
  next
    fix a
    assume "a < length (matmul (transpose_np ?U) ?U)"
    then have a: "a < k" using P by (simp add: is_mat_def)
    show "matmul (transpose_np ?U) ?U ! a = eye k ! a"
    proof (rule nth_equalityI)
      show "length (matmul (transpose_np ?U) ?U ! a) = length (eye k ! a)"
        using is_mat_row [OF P a] a by (simp add: eye_def)
    next
      fix b
      assume "b < length (matmul (transpose_np ?U) ?U ! a)"
      then have b: "b < k" using is_mat_row [OF P a] by simp
      have "matmul (transpose_np ?U) ?U ! a ! b = dot (transpose_np ?U ! a) (col ?U b)"
        by (rule matmul_nth [OF T U n a b])
      also have "\<dots> = dot (col ?U a) (col ?U b)"
        by (simp add: transpose_nth [OF U n a])
      also have "\<dots> = dot (gs_unit linalg_inv X a) (gs_unit linalg_inv X b)"
        using col_gs_basis [OF X n a gs_unit_length [OF X n a ind inv]]
          col_gs_basis [OF X n b gs_unit_length [OF X n b ind inv]] by simp
      also have "\<dots> = (if a = b then 1 else 0)"
        by (rule gs_unit_orthonormal [OF X n a b ind inv])
      also have "\<dots> = eye k ! a ! b"
        using a b by (simp add: eye_nth)
      finally show "matmul (transpose_np ?U) ?U ! a ! b = eye k ! a ! b" .
    qed
  qed
qed

lemma gram_schmidt_no_columns:
  assumes "is_mat n 0 X"
  shows "gram_schmidt linalg_inv mem X = Inl IndexError"
proof -
  have "ncols X = 0" using assms by (cases X) (simp_all add: ncols_def is_mat_def)
  then show ?thesis by (simp add: gram_schmidt_def shape_def)
qed

text \<open>
  C2. For every \<open>n\<close>-by-\<open>k\<close> real matrix \<open>X\<close> with linearly independent columns, and
  every inversion routine that meets its contract on the Gram matrices of the leading
  columns of \<open>X\<close>, the matrix \<open>U\<close> returned by \<open>gram_schmidt\<close> consists of finite numbers
  and \<open>U.T @ U\<close> is the \<open>k\<close>-by-\<open>k\<close> identity (exact real arithmetic). A matrix is
  returned whenever \<open>X\<close> has at least one column.
\<close>

theorem gram_schmidt_orthonormal:
  assumes "is_mat n k X" and "lin_indep_cols k X"
    and "\<forall>i. 0 < i \<and> i < k \<longrightarrow> inverts linalg_inv (gram_upto X i)"
  shows "(\<forall>U'. gram_schmidt linalg_inv mem X = Inr U' \<longrightarrow>
            (\<exists>U. U' = map (map Fin) U \<and> is_mat n k U \<and> matmul (transpose_np U) U = eye k)) \<and>
         (0 < k \<longrightarrow> (\<exists>U'. gram_schmidt linalg_inv mem X = Inr U'))"
proof (cases "0 < k")
  case True
  have n: "0 < n" by (rule lin_indep_rows_exist [OF assms(1,2) True])
  from gram_schmidt_result [OF assms(1) True assms(2,3)]
    gs_basis_orthonormal [OF assms(1) True assms(2,3)] is_mat_gs_basis [OF assms(1) n]
  show ?thesis by auto
next
  case False
  then have "is_mat n 0 X" using assms(1) by simp
  from gram_schmidt_no_columns [OF this] False show ?thesis by simp
qed

lemma is_mat_X_example: "is_mat 3 2 X_example"
  by (simp add: is_mat_def X_example_def)

lemma lin_indep_X_example: "lin_indep_cols 2 X_example"
  unfolding lin_indep_cols_def
proof (intro allI impI)
  fix c :: "real list"
  assume h: "length c = 2 \<and> matvec X_example c = zeros (length X_example)"
  then obtain a b where c: "c = [a, b]"
    by (cases c; cases "tl c") auto
  from h show "c = zeros 2"
    unfolding c by (simp add: X_example_def matvec_def dot_def zeros_def numeral_2_eq_2)
qed

lemma gram_X_example_1: "gram_upto X_example 1 = [[5]]"
  by (simp add: gram_upto_def X_example_def cols_upto_def transpose_np_def ncols_def
      matmul_def col_def dot_def)

lemma inverts_X_example_1: "inverts inv_small (gram_upto X_example 1)"
  unfolding gram_X_example_1
  by (simp add: inverts_def is_inverse_def inv_small_def is_mat_def matmul_def ncols_def
      col_def dot_def eye_def)

theorem gram_schmidt_orthonormal_witness:
  "is_mat 3 2 X_example \<and> lin_indep_cols 2 X_example \<and>
   inverts inv_small (gram_upto X_example 1) \<and>
   (\<exists>U. gram_schmidt inv_small nan_mem X_example = Inr (map (map Fin) U) \<and> is_mat 3 2 U \<and>
      matmul (transpose_np U) U = eye 2)"
proof -
  have inv: "\<forall>i. 0 < i \<and> i < 2 \<longrightarrow> inverts inv_small (gram_upto X_example i)"
  proof (intro allI impI)
    fix i :: nat assume "0 < i \<and> i < 2"
    then have "i = 1" by simp
    then show "inverts inv_small (gram_upto X_example i)"
      using inverts_X_example_1 by simp
  qed
  from gram_schmidt_orthonormal [OF is_mat_X_example lin_indep_X_example inv, of nan_mem]
  have "\<exists>U. gram_schmidt inv_small nan_mem X_example = Inr (map (map Fin) U) \<and> is_mat 3 2 U \<and>
      matmul (transpose_np U) U = eye 2"
    by auto
  with is_mat_X_example lin_indep_X_example inverts_X_example_1 show ?thesis by blast
qed

subsection \<open>Finite floats embed the reals\<close>

lemma sum_list_Fin: "sum_list (map Fin xs) = Fin (sum_list xs)"
  by (induction xs) (simp_all add: zero_npfloat_def plus_npfloat_def)

lemma dot_Fin: "dot (map Fin a) (map Fin b) = Fin (dot a b)"
proof -
  have "map2 (*) (map Fin a) (map Fin b) = map Fin (map2 (*) a b)"
  proof (induction a arbitrary: b)
    case Nil
    show ?case by simp
  next
    case (Cons x a)
    show ?case
    proof (cases b)
      case Nil
      then show ?thesis by simp
    next
      case (Cons y b')
      with Cons.IH [of b'] show ?thesis by (simp add: times_npfloat_def)
    qed
  qed
  then have "dot (map Fin a) (map Fin b) = sum_list (map Fin (map2 (*) a b))"
    by (simp only: dot_def)
  also have "\<dots> = Fin (sum_list (map2 (*) a b))" by (rule sum_list_Fin)
  finally show ?thesis by (simp only: dot_def)
qed

lemma ncols_Fin: "ncols (map (map Fin) A) = ncols A"
  by (cases A) (simp_all add: ncols_def)

lemma col_Fin:
  assumes "is_mat n k A" and "j < k"
  shows "col (map (map Fin) A) j = map Fin (col A j)"
  using assms by (auto simp: col_def is_mat_def)

lemma matvec_Fin: "matvec (map (map Fin) A) (map Fin x) = map Fin (matvec A x)"
  by (simp add: matvec_def dot_Fin)

lemma transpose_Fin:
  assumes "is_mat n k A"
  shows "transpose_np (map (map Fin) A) = map (map Fin) (transpose_np A)"
proof -
  have "ncols A = k \<or> A = []" using assms by (cases A) (auto simp: ncols_def is_mat_def)
  then show ?thesis
  proof
    assume "ncols A = k"
    then show ?thesis
      using col_Fin [OF assms] by (simp add: transpose_np_def ncols_Fin)
  next
    assume "A = []"
    then show ?thesis by (simp add: transpose_np_def ncols_def)
  qed
qed

lemma matmul_Fin:
  assumes A: "is_mat p m A" and B: "is_mat m q B" and m: "0 < m"
  shows "matmul (map (map Fin) A) (map (map Fin) B) = map (map Fin) (matmul A B)"
proof -
  have "ncols B = q" by (rule ncols_mat [OF B m])
  then show ?thesis
    using col_Fin [OF B] by (simp add: matmul_def ncols_Fin dot_Fin)
qed

subsection \<open>Column spaces\<close>

lemma in_span_vadd:
  assumes A: "is_mat n k A" and "in_span k A v" and "in_span k A w"
  shows "in_span k A (vadd v w)"
proof -
  from assms obtain a b where ab: "length a = k" "v = matvec A a" "length b = k" "w = matvec A b"
    by (auto simp: in_span_def)
  have "vadd v w = matvec A (vadd a b)"
    using matvec_vadd [OF A ab(1) ab(3)] ab by simp
  moreover have "length (vadd a b) = k" using ab by (simp add: vadd_def)
  ultimately show ?thesis by (auto simp: in_span_def)
qed

lemma in_span_vsub:
  assumes A: "is_mat n k A" and "in_span k A v" and "in_span k A w"
  shows "in_span k A (vsub v w)"
proof -
  from assms obtain a b where ab: "length a = k" "v = matvec A a" "length b = k" "w = matvec A b"
    by (auto simp: in_span_def)
  have "vsub v w = matvec A (vsub a b)"
    using matvec_vsub [OF A ab(1) ab(3)] ab by simp
  moreover have "length (vsub a b) = k" using ab by (simp add: vsub_def)
  ultimately show ?thesis by (auto simp: in_span_def)
qed

lemma in_span_smult:
  assumes A: "is_mat n k A" and "in_span k A v"
  shows "in_span k A (smult s v)"
proof -
  from assms obtain a where a: "length a = k" "v = matvec A a"
    by (auto simp: in_span_def)
  have "smult s v = matvec A (smult s a)"
    using matvec_smult [OF A a(1)] a by simp
  moreover have "length (smult s a) = k" using a by (simp add: smult_def)
  ultimately show ?thesis by (auto simp: in_span_def)
qed

lemma in_span_zeros:
  assumes A: "is_mat n k A"
  shows "in_span k A (zeros n)"
  using matvec_zeros [OF A] by (auto simp: in_span_def zeros_def intro!: exI [of _ "replicate k 0"])

lemma in_span_col:
  assumes A: "is_mat n k A" and j: "j < k"
  shows "in_span k A (col A j)"
proof -
  have "matvec A (eye k ! j) = col A j" by (rule matvec_unit [OF A j])
  moreover have "length (eye k ! j) = k" using j by (simp add: eye_def)
  ultimately show ?thesis unfolding in_span_def by metis
qed

lemma in_span_prefix_comb:
  assumes X: "is_mat n k X" and A: "is_mat n k' A"
  shows "j \<le> k \<Longrightarrow> (\<forall>l<j. in_span k' A (col X l)) \<Longrightarrow> length c = j \<Longrightarrow>
         in_span k' A (matvec (cols_upto X j) c)"
proof (induction j arbitrary: c)
  case 0
  then have "matvec (cols_upto X 0) c = zeros n"
    using matvec_cols_upto_0 [of X] X by (simp add: is_mat_def)
  then show ?case using in_span_zeros [OF A] by simp
next
  case (Suc j)
  from Suc.prems(3) obtain c' s where c: "c = c' @ [s]" "length c' = j"
    by (cases c rule: rev_cases) auto
  from Suc.prems have j: "j < k" by simp
  have "matvec (cols_upto X (Suc j)) c =
        vadd (matvec (cols_upto X j) c') (smult s (col X j))"
    using matvec_snoc [OF X j c(2), of s] c(1) by simp
  moreover have "in_span k' A (matvec (cols_upto X j) c')"
    using Suc.IH [of c'] Suc.prems c(2) by simp
  moreover have "in_span k' A (smult s (col X j))"
    using Suc.prems(2) by (intro in_span_smult [OF A]) simp
  ultimately show ?case using in_span_vadd [OF A] by simp
qed

lemma cols_upto_all: "is_mat n k X \<Longrightarrow> cols_upto X k = X"
  by (simp add: cols_upto_def is_mat_def map_idI)

lemma in_span_matvec:
  assumes X: "is_mat n k X" and A: "is_mat n k' A"
    and "\<forall>l<k. in_span k' A (col X l)" and "length c = k"
  shows "in_span k' A (matvec X c)"
  using in_span_prefix_comb [OF X A le_refl assms(3,4)] by (simp add: cols_upto_all [OF X])

lemma in_span_orthogonal:
  assumes A: "is_mat n k A" and n: "0 < n" and v: "in_span k A v"
    and r: "length r = n" and z: "matvec (transpose_np A) r = zeros k"
  shows "dot v r = 0"
proof -
  from v obtain b where b: "length b = k" "v = matvec A b" by (auto simp: in_span_def)
  have "dot (matvec A b) r = dot b (matvec (transpose_np A) r)"
    by (rule dot_matvec_adjoint [OF A n b(1) r])
  then show ?thesis using b z by simp
qed

subsection \<open>The two projections\<close>

lemma projection_form:
  fixes Z :: "real list list"
  assumes Z: "is_mat n i Z" and n: "0 < n" and i: "0 < i" and B: "is_mat i i B"
    and x: "length x = n"
  shows "matvec (matmul (matmul Z B) (transpose_np Z)) x =
           matvec Z (matvec B (matvec (transpose_np Z) x))"
proof -
  have T: "is_mat i n (transpose_np Z)" by (rule is_mat_transpose [OF Z n])
  have ZB: "is_mat n i (matmul Z B)" by (rule is_mat_matmul [OF Z B i])
  have lenTx: "length (matvec (transpose_np Z) x) = i" using T by (simp add: is_mat_def)
  have "matvec (matmul (matmul Z B) (transpose_np Z)) x =
             matvec (matmul Z B) (matvec (transpose_np Z) x)"
    by (rule matvec_matmul [OF ZB T i x])
  also have "\<dots> = matvec Z (matvec B (matvec (transpose_np Z) x))"
    by (rule matvec_matmul [OF Z B i lenTx])
  finally show ?thesis .
qed

lemma orthonormal_residual:
  assumes U: "is_mat n k U" and n: "0 < n" and k: "0 < k" and y: "length y = n"
    and orth: "matmul (transpose_np U) U = eye k"
  shows "matvec (transpose_np U) (vsub y (matvec U (matvec (transpose_np U) y))) = zeros k"
proof -
  let ?T = "transpose_np U"
  let ?w = "matvec ?T y"
  have T: "is_mat k n ?T" by (rule is_mat_transpose [OF U n])
  have lenw: "length ?w = k" using T by (simp add: is_mat_def)
  have lenUw: "length (matvec U ?w) = n" using U by (simp add: is_mat_def)
  have "matvec ?T (vsub y (matvec U ?w)) = vsub ?w (matvec ?T (matvec U ?w))"
    by (rule matvec_vsub [OF T y lenUw])
  also have "matvec ?T (matvec U ?w) = matvec (matmul ?T U) ?w"
    by (rule matvec_matmul [OF T U n lenw, symmetric])
  also have "\<dots> = ?w" unfolding orth by (rule matvec_eye [OF lenw])
  also have "vsub ?w ?w = zeros k" by (rule vsub_self [OF lenw])
  finally show ?thesis .
qed

lemma gs_unit_in_span:
  assumes X: "is_mat n k X" and n: "0 < n" and j: "j < k"
    and ind: "lin_indep_cols k X"
    and inv: "\<forall>i. 0 < i \<and> i < k \<longrightarrow> inverts linalg_inv (gram_upto X i)"
  shows "in_span k X (gs_unit linalg_inv X j)"
proof -
  from gs_resid_form [OF X n j ind inv] obtain c where c: "length c = j"
    "gs_resid linalg_inv X j = vsub (col X j) (matvec (cols_upto X j) c)" by blast
  have all: "\<forall>l<j. in_span k X (col X l)"
    using in_span_col [OF X] j by simp
  have "in_span k X (matvec (cols_upto X j) c)"
    using j by (intro in_span_prefix_comb [OF X X _ all c(1)]) simp
  then have "in_span k X (gs_resid linalg_inv X j)"
    unfolding c(2) by (intro in_span_vsub [OF X in_span_col [OF X j]])
  then show ?thesis
    unfolding gs_unit_smult by (rule in_span_smult [OF X])
qed

lemma col_in_span_basis:
  assumes X: "is_mat n k X" and n: "0 < n"
    and ind: "lin_indep_cols k X"
    and inv: "\<forall>i. 0 < i \<and> i < k \<longrightarrow> inverts linalg_inv (gram_upto X i)"
  shows "j < k \<Longrightarrow> in_span k (gs_basis linalg_inv X) (col X j)"
proof (induction j rule: less_induct)
  case (less j)
  let ?U = "gs_basis linalg_inv X"
  let ?u = "gs_resid linalg_inv X j"
  have U: "is_mat n k ?U" by (rule is_mat_gs_basis [OF X n])
  have j: "j < k" by (rule less.prems)
  from gs_resid_form [OF X n j ind inv] obtain c where c: "length c = j"
    "?u = vsub (col X j) (matvec (cols_upto X j) c)" by blast
  let ?Zc = "matvec (cols_upto X j) c"
  have lenx: "length (col X j) = n" using X by (simp add: is_mat_def)
  have lenZc: "length ?Zc = n" using X by (simp add: cols_upto_def is_mat_def)
  have lenu: "length ?u = n" by (rule gs_resid_length [OF X n j ind inv])
  have nz: "norm2 ?u \<noteq> 0" by (rule gs_norm_nonzero [OF X n j ind inv])
  have "\<forall>l<j. in_span k ?U (col X l)"
    using less.IH j by simp
  then have Zc: "in_span k ?U ?Zc"
    using j by (intro in_span_prefix_comb [OF X U _ _ c(1)]) simp_all
  have "?u = smult (norm2 ?u) (gs_unit linalg_inv X j)"
    using nz by (intro nth_equalityI) (simp_all add: gs_unit_def smult_def)
  also have "gs_unit linalg_inv X j = col ?U j"
    by (rule col_gs_basis [OF X n j gs_unit_length [OF X n j ind inv], symmetric])
  finally have eq: "?u = smult (norm2 ?u) (col ?U j)" .
  have "in_span k ?U ?u"
    by (subst eq) (rule in_span_smult [OF U in_span_col [OF U j]])
  moreover have "col X j = vadd ?u ?Zc"
  proof (rule nth_equalityI)
    show "length (col X j) = length (vadd ?u ?Zc)"
      using lenx lenZc lenu by (simp add: vadd_def)
  next
    fix a
    assume "a < length (col X j)"
    then have a: "a < n" using lenx by simp
    have "?u ! a = vsub (col X j) ?Zc ! a" using c(2) by simp
    then show "col X j ! a = vadd ?u ?Zc ! a"
      using a lenx lenZc lenu by (simp add: vadd_def vsub_def)
  qed
  ultimately show ?case using in_span_vadd [OF U _ Zc] by simp
qed

lemma projections_equal:
  assumes X: "is_mat n k X" and k: "0 < k"
    and ind: "lin_indep_cols k X"
    and inv: "\<forall>i. 0 < i \<and> i < k \<longrightarrow> inverts linalg_inv (gram_upto X i)"
    and B: "is_mat k k B" "matmul (matmul (transpose_np X) X) B = eye k"
    and y: "length y = n"
  shows "matvec (matmul (gs_basis linalg_inv X) (transpose_np (gs_basis linalg_inv X))) y =
         matvec (matmul (matmul X B) (transpose_np X)) y"
proof -
  let ?U = "gs_basis linalg_inv X"
  have n: "0 < n" by (rule lin_indep_rows_exist [OF X ind k])
  have U: "is_mat n k ?U" by (rule is_mat_gs_basis [OF X n])
  have TU: "is_mat k n (transpose_np ?U)" by (rule is_mat_transpose [OF U n])
  have TX: "is_mat k n (transpose_np X)" by (rule is_mat_transpose [OF X n])
  have orth: "matmul (transpose_np ?U) ?U = eye k"
    by (rule gs_basis_orthonormal [OF X k ind inv])
  let ?c1 = "matvec B (matvec (transpose_np X) y)"
  let ?w = "matvec (transpose_np ?U) y"
  let ?p1 = "matvec X ?c1"
  let ?p2 = "matvec ?U ?w"
  have p1: "matvec (matmul (matmul X B) (transpose_np X)) y = ?p1"
    by (rule projection_form [OF X n k B(1) y])
  have p2: "matvec (matmul ?U (transpose_np ?U)) y = ?p2"
    by (rule matvec_matmul [OF U TU k y])
  have lenc1: "length ?c1 = k" using B(1) by (simp add: is_mat_def)
  have lenw: "length ?w = k" using TU by (simp add: is_mat_def)
  have lenp1: "length ?p1 = n" using X by (simp add: is_mat_def)
  have lenp2: "length ?p2 = n" using U by (simp add: is_mat_def)
  let ?r1 = "vsub y ?p1"
  let ?r2 = "vsub y ?p2"
  let ?d = "vsub ?p1 ?p2"
  have lenr: "length ?r1 = n" "length ?r2 = n" "length ?d = n"
    using y lenp1 lenp2 by (simp_all add: vsub_def)
  have r1: "matvec (transpose_np X) ?r1 = zeros k"
    by (rule residual_orthogonal [OF X n k B(1) y B(2)])
  have r2: "matvec (transpose_np ?U) ?r2 = zeros k"
    by (rule orthonormal_residual [OF U n k y orth])
  have colsU: "\<forall>l<k. in_span k X (col ?U l)"
  proof (intro allI impI)
    fix l assume l: "l < k"
    have "col ?U l = gs_unit linalg_inv X l"
      by (rule col_gs_basis [OF X n l gs_unit_length [OF X n l ind inv]])
    then show "in_span k X (col ?U l)"
      using gs_unit_in_span [OF X n l ind inv] by simp
  qed
  have colsX: "\<forall>l<k. in_span k ?U (col X l)"
    using col_in_span_basis [OF X n ind inv] by simp
  have p1X: "in_span k X ?p1" unfolding in_span_def using lenc1 by blast
  have p2U: "in_span k ?U ?p2" unfolding in_span_def using lenw by blast
  have p2X: "in_span k X ?p2" by (rule in_span_matvec [OF U X colsU lenw])
  have p1U: "in_span k ?U ?p1" by (rule in_span_matvec [OF X U colsX lenc1])
  have dX: "in_span k X ?d" by (rule in_span_vsub [OF X p1X p2X])
  have dU: "in_span k ?U ?d" by (rule in_span_vsub [OF U p1U p2U])
  have d1: "dot ?d ?r1 = 0" by (rule in_span_orthogonal [OF X n dX lenr(1) r1])
  have d2: "dot ?d ?r2 = 0" by (rule in_span_orthogonal [OF U n dU lenr(2) r2])
  have "?d = vsub ?r2 ?r1"
    using y lenp1 lenp2 by (intro nth_equalityI) (simp_all add: vsub_def)
  then have "dot ?d ?d = dot ?d (vsub ?r2 ?r1)" by simp
  also have "\<dots> = dot ?d ?r2 - dot ?d ?r1"
    by (rule dot_vsub_right [OF lenr(2) lenr(1) lenr(3)])
  finally have "dot ?d ?d = 0" using d1 d2 by simp
  then have dz: "?d = zeros n" using dot_self_zero [OF lenr(3)] by simp
  have "?p2 = ?p1"
  proof (rule nth_equalityI)
    show "length ?p2 = length ?p1" using lenp1 lenp2 by simp
  next
    fix a
    assume "a < length ?p2"
    then have a: "a < n" using lenp2 by simp
    have "?d ! a = zeros n ! a" using dz by simp
    then show "?p2 ! a = ?p1 ! a"
      using a lenp1 lenp2 by (simp add: vsub_def zeros_def)
  qed
  with p1 p2 show ?thesis by simp
qed

lemma Py_agree:
  assumes X: "is_mat n k X" and k: "0 < k"
    and ind: "lin_indep_cols k X"
    and inv: "\<forall>i. 0 < i \<and> i \<le> k \<longrightarrow> inverts linalg_inv (gram_upto X i)"
    and y: "length y = n"
  shows "\<exists>p. Py1 linalg_inv X y = Inr p \<and> Py2 linalg_inv mem X y = Inr (map Fin p)"
proof -
  let ?U = "gs_basis linalg_inv X"
  have n: "0 < n" by (rule lin_indep_rows_exist [OF X ind k])
  have inv': "\<forall>i. 0 < i \<and> i < k \<longrightarrow> inverts linalg_inv (gram_upto X i)"
    using inv by simp
  have U: "is_mat n k ?U" by (rule is_mat_gs_basis [OF X n])
  have TU: "is_mat k n (transpose_np ?U)" by (rule is_mat_transpose [OF U n])
  have TX: "is_mat k n (transpose_np X)" by (rule is_mat_transpose [OF X n])
  have gk: "gram_upto X k = matmul (transpose_np X) X"
    by (simp add: gram_upto_def cols_upto_all [OF X])
  have "\<exists>B. is_inverse (matmul (transpose_np X) X) B"
    by (rule gram_invertible [OF X n ind k])
  moreover have "length (matmul (transpose_np X) X) = k"
    using is_mat_matmul [OF TX X n] by (simp add: is_mat_def)
  moreover have "inverts linalg_inv (matmul (transpose_np X) X)"
    using inv k gk by auto
  ultimately obtain B where B: "linalg_inv (matmul (transpose_np X) X) = Inr B"
      "is_mat k k B" "matmul (matmul (transpose_np X) X) B = eye k"
    by (auto simp: inverts_def is_inverse_def)
  let ?p = "matvec (matmul (matmul X B) (transpose_np X)) y"
  have lenX: "length X = n" using X by (simp add: is_mat_def)
  have py1: "Py1 linalg_inv X y = Inr ?p"
    using B(1) y lenX by (simp add: Py1_def)
  have gs: "gram_schmidt linalg_inv mem X = Inr (map (map Fin) ?U)"
    by (rule gram_schmidt_result [OF X k ind inv'])
  have "matvec (matmul (map (map Fin) ?U) (transpose_np (map (map Fin) ?U))) (map Fin y) =
        map Fin (matvec (matmul ?U (transpose_np ?U)) y)"
    by (simp only: transpose_Fin [OF U] matmul_Fin [OF U TU k] matvec_Fin)
  also have "matvec (matmul ?U (transpose_np ?U)) y = ?p"
    by (rule projections_equal [OF X k ind inv' B(2,3) y])
  finally have "Py2 linalg_inv mem X y = Inr (map Fin ?p)"
    using gs y U by (simp add: Py2_def is_mat_def)
  with py1 show ?thesis by blast
qed

subsection \<open>Runs that may fail\<close>




subsection \<open>A duplicated column\<close>









lemma gram_X_example_2: "gram_upto X_example 2 = [[5, 4], [4, 40]]"
  by (simp add: gram_upto_def X_example_def cols_upto_def transpose_np_def ncols_def
      matmul_def col_def dot_def upt_rec)

lemma inverts_X_example_2: "inverts inv_small (gram_upto X_example 2)"
  unfolding gram_X_example_2
  by (simp add: inverts_def is_inverse_def inv_small_def is_mat_def matmul_def ncols_def
      col_def dot_def eye_def upt_rec)

lemma inverts_X_example:
  "\<forall>i. 0 < i \<and> i \<le> 2 \<longrightarrow> inverts inv_small (gram_upto X_example i)"
proof (intro allI impI)
  fix i :: nat assume "0 < i \<and> i \<le> 2"
  then have "i = 1 \<or> i = 2" by auto
  then show "inverts inv_small (gram_upto X_example i)"
    using inverts_X_example_1 inverts_X_example_2 by auto
qed

lemma Py1_example: "Py1 inv_small X_example y_example = Inr [- 13 / 23, 75 / 23, - 51 / 23]"
  by (simp add: Py1_def X_example_def y_example_def transpose_np_def ncols_def
      matmul_def col_def dot_def inv_small_def matvec_def upt_rec Let_def)

text \<open>
  C5. For every vector \<open>y\<close> and \<open>n\<close>-by-\<open>k\<close> matrix \<open>X\<close> with linearly independent
  columns, and every inversion routine that meets its contract on the Gram matrices of
  the leading columns of \<open>X\<close>, the projection \<open>U @ U.T @ y\<close> with \<open>U = gram_schmidt(X)\<close>
  is finite and equal to \<open>X @ inv(X.T @ X) @ X.T @ y\<close> (exact real arithmetic); it is
  returned whenever \<open>X\<close> has at least one column. In the concrete case of the notebook
  both are \<open>[-13/23, 75/23, -51/23]\<close>, within \<open>1e-4\<close> of \<open>[-0.5652, 3.2609, -2.2174]\<close>.
\<close>

theorem projections_agree:
  assumes "is_mat n k X" and "lin_indep_cols k X"
    and "\<forall>i. 0 < i \<and> i \<le> k \<longrightarrow> inverts linalg_inv (gram_upto X i)"
    and "length y = n"
  shows "(\<forall>v. Py2 linalg_inv mem X y = Inr v \<longrightarrow>
            (\<exists>p. Py1 linalg_inv X y = Inr p \<and> v = map Fin p)) \<and>
         (0 < k \<longrightarrow> (\<exists>v. Py2 linalg_inv mem X y = Inr v)) \<and>
         Py1 inv_small X_example y_example = Inr [- 13 / 23, 75 / 23, - 51 / 23] \<and>
         Py2 inv_small mem X_example y_example =
           Inr [Fin (- 13 / 23), Fin (75 / 23), Fin (- 51 / 23)] \<and>
         \<bar>- 13 / 23 - (- 5652 / 10000 :: real)\<bar> < 1 / 10000 \<and>
         \<bar>75 / 23 - (32609 / 10000 :: real)\<bar> < 1 / 10000 \<and>
         \<bar>- 51 / 23 - (- 22174 / 10000 :: real)\<bar> < 1 / 10000"
proof -
  have general: "(\<forall>v. Py2 linalg_inv mem X y = Inr v \<longrightarrow>
            (\<exists>p. Py1 linalg_inv X y = Inr p \<and> v = map Fin p)) \<and>
         (0 < k \<longrightarrow> (\<exists>v. Py2 linalg_inv mem X y = Inr v))"
  proof (cases "0 < k")
    case True
    from Py_agree [OF assms(1) True assms(2,3,4), of mem] show ?thesis by auto
  next
    case False
    then have "is_mat n 0 X" using assms(1) by simp
    from gram_schmidt_no_columns [OF this] False show ?thesis by (simp add: Py2_def)
  qed
  have len: "length y_example = 3" by (simp add: y_example_def)
  have k2: "(0::nat) < 2" by simp
  from Py_agree [OF is_mat_X_example k2 lin_indep_X_example inverts_X_example len, of mem]
  have concrete: "Py2 inv_small mem X_example y_example =
      Inr [Fin (- 13 / 23), Fin (75 / 23), Fin (- 51 / 23)]"
    by (simp add: Py1_example)
  from general Py1_example concrete show ?thesis by simp
qed

theorem projections_agree_witness:
  "is_mat 3 2 X_example \<and> lin_indep_cols 2 X_example \<and>
   inverts inv_small (gram_upto X_example 1) \<and> inverts inv_small (gram_upto X_example 2) \<and>
   length y_example = 3 \<and>
   (\<exists>v p. Py2 inv_small nan_mem X_example y_example = Inr v \<and>
        Py1 inv_small X_example y_example = Inr p \<and> v = map Fin p) \<and>
   Py2 inv_small nan_mem X_example y_example =
     Inr [Fin (- 13 / 23), Fin (75 / 23), Fin (- 51 / 23)]"
proof -
  have len: "length y_example = 3" by (simp add: y_example_def)
  from projections_agree [OF is_mat_X_example lin_indep_X_example inverts_X_example len,
      of nan_mem]
  have "(\<exists>v p. Py2 inv_small nan_mem X_example y_example = Inr v \<and>
        Py1 inv_small X_example y_example = Inr p \<and> v = map Fin p) \<and>
     Py2 inv_small nan_mem X_example y_example =
       Inr [Fin (- 13 / 23), Fin (75 / 23), Fin (- 51 / 23)]"
    by auto
  with is_mat_X_example lin_indep_X_example inverts_X_example_1 inverts_X_example_2 len
  show ?thesis by blast
qed

end
